theory Spec2Isabelle
  imports Complex_Main "HOL-Library.Sublist"
begin

section \<open>JavaScript values\<close>

text \<open>
  The response bodies are JSON texts and the decoder walks the tree that \<open>JSON.parse\<close>
  returns, reading it by position. A value is one of JavaScript's: \<open>undefined\<close> (what a
  read past the end of an array or of a missing property gives), \<open>null\<close>, a boolean, a
  number, a string, an array, or an object with its properties in order. A number is
  kept as a rational: the decoder only tests numbers for zero and hands them on.
\<close>

datatype jsval =
    JUndefined
  | JNull
  | JBool bool
  | JNum rat
  | JStr string
  | JArr "jsval list"
  | JObj "(string \<times> jsval) list"

datatype js_exn = TypeError | SyntaxError | PlainError

text \<open>\<open>if (v)\<close>, \<open>!v\<close>, \<open>a && b\<close>, \<open>a || b\<close>: the falsy values are \<open>undefined\<close>, \<open>null\<close>,
  \<open>false\<close>, \<open>0\<close> and the empty string.\<close>

fun truthy :: "jsval \<Rightarrow> bool" where
  "truthy JUndefined = False"
| "truthy JNull = False"
| "truthy (JBool b) = b"
| "truthy (JNum n) = (n \<noteq> 0)"
| "truthy (JStr s) = (s \<noteq> [])"
| "truthy (JArr xs) = True"
| "truthy (JObj fs) = True"

fun nullish :: "jsval \<Rightarrow> bool" where
  "nullish JUndefined = True"
| "nullish JNull = True"
| "nullish v = False"

fun isArray :: "jsval \<Rightarrow> bool" where
  "isArray (JArr xs) = True"
| "isArray v = False"

fun arrayLength :: "jsval \<Rightarrow> nat" where
  "arrayLength (JArr xs) = length xs"
| "arrayLength v = 0"

fun elements :: "jsval \<Rightarrow> jsval list" where
  "elements (JArr xs) = xs"
| "elements v = []"

definition digitChar :: "nat \<Rightarrow> char" where
  "digitChar d = char_of (48 + d)"

fun decimal :: "nat \<Rightarrow> string" where
  "decimal n = (if n < 10 then [digitChar n] else decimal (n div 10) @ [digitChar (n mod 10)])"

declare decimal.simps [simp del]

text \<open>\<open>v[i]\<close> on a value that is neither \<open>null\<close> nor \<open>undefined\<close>: an element of an
  array, a one-character string of a string, the property named by the decimal numeral
  of an object, and \<open>undefined\<close> wherever there is nothing to read.\<close>

fun getIndex :: "jsval \<Rightarrow> nat \<Rightarrow> jsval" where
  "getIndex (JArr xs) i = (if i < length xs then xs ! i else JUndefined)"
| "getIndex (JStr s) i = (if i < length s then JStr [s ! i] else JUndefined)"
| "getIndex (JObj fs) i = (case map_of fs (decimal i) of Some x \<Rightarrow> x | None \<Rightarrow> JUndefined)"
| "getIndex v i = JUndefined"

text \<open>\<open>v[i]\<close> in general: reading a property of \<open>null\<close> or \<open>undefined\<close> throws.\<close>

definition index :: "jsval \<Rightarrow> nat \<Rightarrow> js_exn + jsval" where
  "index v i = (if nullish v then Inl TypeError else Inr (getIndex v i))"

text \<open>\<open>v?.[i]\<close>: \<open>undefined\<close> instead of the exception.\<close>

definition optIndex :: "jsval \<Rightarrow> nat \<Rightarrow> jsval" where
  "optIndex v i = (if nullish v then JUndefined else getIndex v i)"

text \<open>\<open>v.d\<close>: only an object can have the property.\<close>

fun getD :: "jsval \<Rightarrow> jsval" where
  "getD (JObj fs) = (case map_of fs ''d'' of Some x \<Rightarrow> x | None \<Rightarrow> JUndefined)"
| "getD v = JUndefined"

definition propD :: "jsval \<Rightarrow> js_exn + jsval" where
  "propD v = (if nullish v then Inl TypeError else Inr (getD v))"


section \<open>The response decoder (place-extractors/general.js)\<close>

subsection \<open>Envelope artefacts: cleanGoogleResponse\<close>

text \<open>The characters \<open>String.prototype.trim\<close> removes and \<open>\s\<close> matches, among the
  characters below 256: tab, line feed, vertical tab, form feed, carriage return, space
  and the no-break space.\<close>

definition isSpace :: "char \<Rightarrow> bool" where
  "isSpace c = (c \<in> {CHR 0x09, CHR 0x0A, CHR 0x0B, CHR 0x0C, CHR 0x0D, CHR 0x20, CHR 0xA0})"

definition trimEnd :: "string \<Rightarrow> string" where
  "trimEnd s = rev (dropWhile isSpace (rev s))"

definition trim :: "string \<Rightarrow> string" where
  "trim s = trimEnd (dropWhile isSpace s)"

text \<open>The trailing comment and the guard prefix, character by character: the comment is
  slash, star, two double quotes, star, slash; the guard is \<open>)]}\<close> and a single quote.\<close>

definition trailingComment :: string where
  "trailingComment = [CHR ''/'', CHR ''*'', CHR 0x22, CHR 0x22, CHR ''*'', CHR ''/'']"

definition xssiGuard :: string where
  "xssiGuard = [CHR '')'', CHR '']'', CHR ''}'', CHR 0x27]"

text \<open>\<open>replace(/\/\*""\*\/\s*$/, '')\<close>: the comment followed by white space up to the end
  of the text is removed, white space included; a text that does not end so is kept.\<close>

definition stripTrailingComment :: "string \<Rightarrow> string" where
  "stripTrailingComment s =
     (let t = trimEnd s
      in if suffix trailingComment t then take (length t - 6) t else s)"

text \<open>\<open>replace(/^\)\]\}\'[\s\n]*/, '')\<close>: the guard at the start and the white space
  after it are removed.\<close>

definition stripGuard :: "string \<Rightarrow> string" where
  "stripGuard s = (if prefix xssiGuard s then dropWhile isSpace (drop 4 s) else s)"

definition cleanGoogleResponse :: "string \<Rightarrow> string" where
  "cleanGoogleResponse text = stripGuard (stripTrailingComment (trim text))"

definition looksLikeHtml :: "string \<Rightarrow> bool" where
  "looksLikeHtml s =
     (prefix ''<!DOCTYPE'' s \<or> prefix ''<html'' s \<or> prefix ''<HTML'' s)"


subsection \<open>Records and results\<close>

record latLng =
  lat :: jsval
  lng :: jsval

record addressParsed =
  neighborhood :: jsval
  street :: jsval
  city :: jsval
  postalCode :: jsval
  state :: jsval
  countryCode :: jsval

record placePaginationData =
  placeId :: jsval
  coords :: latLng
  addressParsed :: addressParsed
  isAdvertisement :: bool
  website :: jsval
  categories :: jsval

text \<open>The \<open>error\<close> strings of the decoder, by their fixed part; the message of the caught
  exception that the source appends is kept as the kind of the exception.\<close>

datatype decode_error =
    ResponseBodyIsEmpty
  | ResponseBodyIsHtml
  | NotValidJson
  | FailedToParseWrapped js_exn js_exn
  | FailedParsingJson js_exn

record decodeResult =
  placesPaginationData :: "placePaginationData list"
  error :: "decode_error option"


subsection \<open>parseJsonResult\<close>

text \<open>
  \<open>fixFloatNumber\<close> (utils/misc-utils) is not among the sources: it is a parameter of the
  model, a function that returns a value or throws.
\<close>

type_synonym fixer = "jsval \<Rightarrow> js_exn + jsval"

definition fixedCoords :: "fixer \<Rightarrow> jsval \<Rightarrow> js_exn + latLng" where
  "fixedCoords fixFloatNumber coordsArr =
     (if truthy coordsArr
      then (case fixFloatNumber (getIndex coordsArr 2) of
              Inl e \<Rightarrow> Inl e
            | Inr la \<Rightarrow>
                (case fixFloatNumber (getIndex coordsArr 3) of
                   Inl e \<Rightarrow> Inl e
                 | Inr lo \<Rightarrow> Inr \<lparr>lat = la, lng = lo\<rparr>))
      else Inr \<lparr>lat = JNull, lng = JNull\<rparr>)"

definition orNull :: "jsval \<Rightarrow> jsval" where
  "orNull v = (if truthy v then v else JNull)"

text \<open>The result is \<open>None\<close> where the source returns \<open>undefined\<close> (a falsy \<open>placeData\<close>).\<close>

definition parseJsonResult ::
  "fixer \<Rightarrow> jsval \<Rightarrow> bool \<Rightarrow> js_exn + placePaginationData option" where
  "parseJsonResult fixFloatNumber placeData isAdv =
     (if \<not> truthy placeData then Inr None
      else
        let addressDetail = optIndex (getIndex placeData 183) 1
        in case fixedCoords fixFloatNumber (getIndex placeData 9) of
             Inl e \<Rightarrow> Inl e
           | Inr c \<Rightarrow>
               Inr (Some
                 \<lparr>placeId = getIndex placeData 78,
                  coords = c,
                  addressParsed =
                    \<lparr>neighborhood = optIndex addressDetail 1,
                     street = optIndex addressDetail 2,
                     city = optIndex addressDetail 3,
                     postalCode = optIndex addressDetail 4,
                     state = optIndex addressDetail 5,
                     countryCode = optIndex addressDetail 6\<rparr>,
                  isAdvertisement = isAdv,
                  website = orNull (optIndex (getIndex placeData 7) 0),
                  categories = getIndex placeData 13\<rparr>))"


subsection \<open>Parsing the text\<close>

text \<open>
  \<open>JSON.parse\<close> belongs to the run time, not to the repository: the decoder takes it as a
  parameter, a function from a text to the parsed value, \<open>None\<close> where \<open>JSON.parse\<close>
  throws its SyntaxError.
\<close>

type_synonym parser = "string \<Rightarrow> jsval option"

text \<open>
  Modelled from the spec: \<open>unstringifyGoogleXrhResponse\<close> (utils/misc-utils) is not among
  the sources. The design reads the string of the wrapper field as a parse attempt of its
  own, "guard-strip + parse". Handed anything but a string it throws, which is the case
  the source's manual retry tests for (\<open>jsonObject.d is not a string\<close>).
\<close>

definition unstringifyGoogleXrhResponse :: "parser \<Rightarrow> jsval \<Rightarrow> js_exn + jsval" where
  "unstringifyGoogleXrhResponse JSON_parse v =
     (case v of
        JStr s \<Rightarrow>
          (case JSON_parse (stripGuard s) of
             Some d \<Rightarrow> Inr d
           | None \<Rightarrow> Inl SyntaxError)
      | _ \<Rightarrow> Inl TypeError)"

text \<open>Lines 673 to 706: the text as it is, the text cleaned once more, and last the text
  read as the wrapper's string.\<close>

definition parseAttempts :: "parser \<Rightarrow> string \<Rightarrow> decode_error + jsval" where
  "parseAttempts JSON_parse jsonString =
     (case JSON_parse jsonString of
        Some v \<Rightarrow> Inr v
      | None \<Rightarrow>
          let jsonString2 = cleanGoogleResponse jsonString
          in case JSON_parse jsonString2 of
               Some v \<Rightarrow> Inr v
             | None \<Rightarrow>
                 (case unstringifyGoogleXrhResponse JSON_parse (JStr jsonString2) of
                    Inr d \<Rightarrow> Inr (JObj [(''d'', JStr jsonString2), (''_directData'', d)])
                  | Inl e3 \<Rightarrow> Inl NotValidJson))"

text \<open>Lines 735 to 756: the manual retry on the wrapper's string.\<close>

definition manualClean :: "string \<Rightarrow> string" where
  "manualClean s =
     (let cleaned = trim (stripGuard s)
      in if suffix trailingComment cleaned then take (length cleaned - 6) cleaned else cleaned)"

text \<open>Lines 723 to 762: the payload is what the wrapper field \<open>d\<close> decodes to when the
  field is truthy, and the parsed tree itself otherwise. Reading \<open>d\<close> of \<open>null\<close> throws
  into the catch of line 841.\<close>

definition locateData :: "parser \<Rightarrow> jsval \<Rightarrow> decode_error + jsval" where
  "locateData JSON_parse jsonObject =
     (case propD jsonObject of
        Inl e \<Rightarrow> Inl (FailedParsingJson e)
      | Inr d \<Rightarrow>
          if truthy d
          then (case unstringifyGoogleXrhResponse JSON_parse d of
                  Inr v \<Rightarrow> Inr v
                | Inl e \<Rightarrow>
                    (case d of
                       JStr s \<Rightarrow>
                         (case JSON_parse (manualClean s) of
                            Some v \<Rightarrow> Inr v
                          | None \<Rightarrow> Inl (FailedToParseWrapped e SyntaxError))
                     | _ \<Rightarrow> Inl (FailedToParseWrapped e PlainError)))
          else Inr jsonObject)"


subsection \<open>Advertisements\<close>

text \<open>\<open>(data[2] && data[2][1] && data[2][1][0]) || []\<close>\<close>

definition adsOf :: "jsval \<Rightarrow> js_exn + jsval" where
  "adsOf v =
     (case index v 2 of
        Inl e \<Rightarrow> Inl e
      | Inr d2 \<Rightarrow>
          if \<not> truthy d2 then Inr (JArr [])
          else if \<not> truthy (getIndex d2 1) then Inr (JArr [])
          else if \<not> truthy (getIndex (getIndex d2 1) 0) then Inr (JArr [])
          else Inr (getIndex (getIndex d2 1) 0))"

text \<open>The body of \<open>ads.forEach\<close>: the records pushed so far, and the exception that ended
  the loop if one did.\<close>

fun pushAds ::
  "fixer \<Rightarrow> jsval list \<Rightarrow> placePaginationData list
     \<Rightarrow> placePaginationData list \<times> js_exn option" where
  "pushAds fixFloatNumber [] acc = (acc, None)"
| "pushAds fixFloatNumber (ad # rest) acc =
     (case index ad 15 of
        Inl e \<Rightarrow> (acc, Some e)
      | Inr placeData \<Rightarrow>
          (case parseJsonResult fixFloatNumber placeData True of
             Inl e \<Rightarrow> (acc, Some e)
           | Inr None \<Rightarrow> pushAds fixFloatNumber rest acc
           | Inr (Some pd) \<Rightarrow> pushAds fixFloatNumber rest (acc @ [pd])))"


subsection \<open>The structural search\<close>

definition isPlaceDataCandidate :: "jsval \<Rightarrow> bool" where
  "isPlaceDataCandidate candidate =
     (isArray candidate
      \<and> isArray (getIndex candidate 9)
      \<and> arrayLength (getIndex candidate 9) \<ge> 2
      \<and> arrayLength candidate > 50)"

text \<open>
  \<open>foundPlaceArrays\<close> in push order. Every array found is paired with its position in
  the tree (the indices from the root): \<open>JSON.parse\<close> builds a tree without sharing, so
  the position is the identity of the array, which the \<open>Set\<close> of line 817 compares when an
  id is not a primitive value.
\<close>

type_synonym found = "nat list \<times> jsval"

function collectPlacesRecursively ::
  "nat list \<Rightarrow> jsval \<Rightarrow> nat \<Rightarrow> nat \<Rightarrow> found list" where
  "collectPlacesRecursively path node depth maxDepth =
     (if depth > maxDepth \<or> \<not> isArray node then []
      else if isPlaceDataCandidate node then [(path, node)]
      else
        (if arrayLength node \<ge> 2 \<and> getIndex node 0 = JNull
            \<and> isPlaceDataCandidate (getIndex node 1)
         then [(path @ [1], getIndex node 1)] else [])
        @ concat (map (\<lambda>(i, child).
                     collectPlacesRecursively (path @ [i]) child (depth + 1) maxDepth)
                   (enumerate 0 (elements node))))"
  by pat_completeness auto
termination
  by (relation "measure (\<lambda>(path, node, depth, maxDepth). Suc maxDepth - depth)") auto

declare collectPlacesRecursively.simps [simp del]


subsection \<open>Extraction with deduplication\<close>

text \<open>What \<open>seenPlaceIds\<close> holds: a primitive id by its value, an array or object by its
  identity.\<close>

datatype setKey = ByValue jsval | ByIdentity "nat list"

fun keyOf :: "nat list \<Rightarrow> jsval \<Rightarrow> setKey" where
  "keyOf path (JArr xs) = ByIdentity path"
| "keyOf path (JObj fs) = ByIdentity path"
| "keyOf path v = ByValue v"

fun extractFound ::
  "fixer \<Rightarrow> found list \<Rightarrow> setKey set \<Rightarrow> placePaginationData list
     \<Rightarrow> placePaginationData list \<times> js_exn option" where
  "extractFound fixFloatNumber [] seenPlaceIds acc = (acc, None)"
| "extractFound fixFloatNumber ((path, result) # rest) seenPlaceIds acc =
     (case parseJsonResult fixFloatNumber result False of
        Inl e \<Rightarrow> (acc, Some e)
      | Inr None \<Rightarrow> extractFound fixFloatNumber rest seenPlaceIds acc
      | Inr (Some pd) \<Rightarrow>
          if truthy (placeId pd)
          then (if keyOf (path @ [78]) (placeId pd) \<in> seenPlaceIds
                then extractFound fixFloatNumber rest seenPlaceIds acc
                else extractFound fixFloatNumber rest
                       (insert (keyOf (path @ [78]) (placeId pd)) seenPlaceIds) (acc @ [pd]))
          else extractFound fixFloatNumber rest seenPlaceIds acc)"


subsection \<open>parseSearchPlacesResponseBody\<close>

definition finish ::
  "placePaginationData list \<times> js_exn option \<Rightarrow> decodeResult" where
  "finish r =
     \<lparr>placesPaginationData = fst r,
      error = (case snd r of None \<Rightarrow> None | Some e \<Rightarrow> Some (FailedParsingJson e))\<rparr>"

text \<open>Lines 710 to 718, the branch of a detail preview.\<close>

definition detailPreviewPlaces :: "fixer \<Rightarrow> jsval \<Rightarrow> decodeResult" where
  "detailPreviewPlaces fixFloatNumber jsonObject =
     (case index jsonObject 6 of
        Inl e \<Rightarrow> finish ([], Some e)
      | Inr v \<Rightarrow>
          (case parseJsonResult fixFloatNumber v False of
             Inl e \<Rightarrow> finish ([], Some e)
           | Inr None \<Rightarrow> finish ([], None)
           | Inr (Some pd) \<Rightarrow> finish ([pd], None)))"

text \<open>Lines 764 to 848, from the payload on.\<close>

definition searchPlaces :: "fixer \<Rightarrow> jsval \<Rightarrow> decodeResult" where
  "searchPlaces fixFloatNumber v =
     (case adsOf v of
        Inl e \<Rightarrow> finish ([], Some e)
      | Inr ads \<Rightarrow>
          if \<not> isArray ads then finish ([], Some TypeError)
          else
            (case pushAds fixFloatNumber (elements ads) [] of
               (acc, Some e) \<Rightarrow> finish (acc, Some e)
             | (acc, None) \<Rightarrow>
                 let foundPlaceArrays = collectPlacesRecursively [] v 0 6
                 in if foundPlaceArrays = [] then finish (acc, None)
                    else finish (extractFound fixFloatNumber foundPlaceArrays {} acc)))"

definition parseSearchPlacesResponseBody ::
  "parser \<Rightarrow> fixer \<Rightarrow> string \<Rightarrow> bool \<Rightarrow> decodeResult" where
  "parseSearchPlacesResponseBody JSON_parse fixFloatNumber responseBodyText isAllPacesNoSearch =
     (let jsonString = cleanGoogleResponse responseBodyText
      in if jsonString = []
         then \<lparr>placesPaginationData = [], error = Some ResponseBodyIsEmpty\<rparr>
         else if looksLikeHtml jsonString
         then \<lparr>placesPaginationData = [], error = Some ResponseBodyIsHtml\<rparr>
         else
           (case parseAttempts JSON_parse jsonString of
              Inl e \<Rightarrow> \<lparr>placesPaginationData = [], error = Some e\<rparr>
            | Inr jsonObject \<Rightarrow>
                if isAllPacesNoSearch then detailPreviewPlaces fixFloatNumber jsonObject
                else
                  (case locateData JSON_parse jsonObject of
                     Inl e \<Rightarrow> \<lparr>placesPaginationData = [], error = Some e\<rparr>
                   | Inr v \<Rightarrow> searchPlaces fixFloatNumber v)))"


section \<open>A reference reader for JSON texts\<close>

text \<open>
  The theorems below hold for every function put in the place of \<open>JSON.parse\<close>. Where a
  statement is evaluated on a concrete text, the text is read by this recursive-descent
  reader of the JSON grammar: white space, the three literals, numbers, strings with
  their escapes (an escaped code unit above 255 is outside the characters of the model
  and is refused), arrays and objects (a repeated key keeps its first place and its last
  value). The first argument bounds the number of nested calls; the length of the text
  is always enough.
\<close>

definition isJsonSpace :: "char \<Rightarrow> bool" where
  "isJsonSpace c = (c \<in> {CHR 0x20, CHR 0x09, CHR 0x0A, CHR 0x0D})"

definition isDigit :: "char \<Rightarrow> bool" where
  "isDigit c = ((48::nat) \<le> of_char c \<and> of_char c \<le> (57::nat))"

definition digitVal :: "char \<Rightarrow> nat" where
  "digitVal c = (of_char c :: nat) - 48"

definition hexVal :: "char \<Rightarrow> nat option" where
  "hexVal c =
     (let n = (of_char c :: nat)
      in if 48 \<le> n \<and> n \<le> 57 then Some (n - 48)
         else if 97 \<le> n \<and> n \<le> 102 then Some (n - 87)
         else if 65 \<le> n \<and> n \<le> 70 then Some (n - 55)
         else None)"

fun digitsValue :: "string \<Rightarrow> nat \<Rightarrow> nat" where
  "digitsValue [] acc = acc"
| "digitsValue (c # cs) acc = digitsValue cs (10 * acc + digitVal c)"

text \<open>A JSON number: sign, integer part without a leading zero, fraction, exponent.\<close>

definition readNumber :: "string \<Rightarrow> (jsval \<times> string) option" where
  "readNumber cs =
     (let neg = (cs \<noteq> [] \<and> hd cs = CHR ''-'');
          cs1 = (if neg then tl cs else cs);
          ds = takeWhile isDigit cs1;
          cs2 = dropWhile isDigit cs1
      in if ds = [] \<or> (length ds > 1 \<and> hd ds = CHR ''0'') then None
         else
           let hasFrac = (cs2 \<noteq> [] \<and> hd cs2 = CHR ''.'');
               fs = (if hasFrac then takeWhile isDigit (tl cs2) else []);
               cs3 = (if hasFrac then dropWhile isDigit (tl cs2) else cs2)
           in if hasFrac \<and> fs = [] then None
              else
                let hasExp = (cs3 \<noteq> [] \<and> (hd cs3 = CHR ''e'' \<or> hd cs3 = CHR ''E''));
                    cs4 = (if hasExp then tl cs3 else cs3);
                    eneg = (hasExp \<and> cs4 \<noteq> [] \<and> hd cs4 = CHR ''-'');
                    cs5 = (if hasExp \<and> cs4 \<noteq> [] \<and> (hd cs4 = CHR ''-'' \<or> hd cs4 = CHR ''+'')
                           then tl cs4 else cs4);
                    es = (if hasExp then takeWhile isDigit cs5 else []);
                    cs6 = (if hasExp then dropWhile isDigit cs5 else cs3)
                in if hasExp \<and> es = [] then None
                   else
                     let mant = (of_nat (digitsValue (ds @ fs) 0) :: rat) / 10 ^ length fs;
                         scaled = (if eneg then mant / 10 ^ digitsValue es 0
                                   else mant * 10 ^ digitsValue es 0)
                     in Some (JNum (if neg then - scaled else scaled), cs6))"

text \<open>The characters of a string up to its closing quote, escapes resolved.\<close>

fun readString :: "string \<Rightarrow> string \<Rightarrow> (string \<times> string) option" where
  "readString [] acc = None"
| "readString (c # cs) acc =
     (if c = CHR 0x22 then Some (acc, cs)
      else if (of_char c :: nat) < 32 then None
      else if c = CHR 0x5C then
        (case cs of
           [] \<Rightarrow> None
         | e # cs' \<Rightarrow>
             if e = CHR 0x22 \<or> e = CHR 0x5C \<or> e = CHR ''/'' then readString cs' (acc @ [e])
             else if e = CHR ''b'' then readString cs' (acc @ [CHR 0x08])
             else if e = CHR ''f'' then readString cs' (acc @ [CHR 0x0C])
             else if e = CHR ''n'' then readString cs' (acc @ [CHR 0x0A])
             else if e = CHR ''r'' then readString cs' (acc @ [CHR 0x0D])
             else if e = CHR ''t'' then readString cs' (acc @ [CHR 0x09])
             else if e = CHR ''u'' then
               (case cs' of
                  h1 # h2 # h3 # h4 # cs'' \<Rightarrow>
                    (case (hexVal h1, hexVal h2, hexVal h3, hexVal h4) of
                       (Some a, Some b, Some c', Some d) \<Rightarrow>
                         if a = 0 \<and> b = 0 then readString cs'' (acc @ [char_of (16 * c' + d)])
                         else None
                     | _ \<Rightarrow> None)
                | _ \<Rightarrow> None)
             else None)
      else readString cs (acc @ [c]))"

fun setProperty :: "(string \<times> jsval) list \<Rightarrow> string \<Rightarrow> jsval \<Rightarrow> (string \<times> jsval) list" where
  "setProperty [] k v = [(k, v)]"
| "setProperty ((k', v') # fs) k v =
     (if k' = k then (k, v) # fs else (k', v') # setProperty fs k v)"

fun readValue :: "nat \<Rightarrow> string \<Rightarrow> (jsval \<times> string) option"
and readElements :: "nat \<Rightarrow> string \<Rightarrow> jsval list \<Rightarrow> (jsval \<times> string) option"
and readMembers :: "nat \<Rightarrow> string \<Rightarrow> (string \<times> jsval) list \<Rightarrow> (jsval \<times> string) option" where
  "readValue 0 cs = None"
| "readValue (Suc n) cs =
     (case dropWhile isJsonSpace cs of
        [] \<Rightarrow> None
      | c # r \<Rightarrow>
          if c = CHR ''['' then
            (case dropWhile isJsonSpace r of
               [] \<Rightarrow> None
             | c' # r' \<Rightarrow> if c' = CHR '']'' then Some (JArr [], r') else readElements n r [])
          else if c = CHR ''{'' then
            (case dropWhile isJsonSpace r of
               [] \<Rightarrow> None
             | c' # r' \<Rightarrow> if c' = CHR ''}'' then Some (JObj [], r') else readMembers n r [])
          else if c = CHR 0x22 then
            (case readString r [] of
               None \<Rightarrow> None
             | Some (s, r') \<Rightarrow> Some (JStr s, r'))
          else if prefix ''null'' (c # r) then Some (JNull, drop 4 (c # r))
          else if prefix ''true'' (c # r) then Some (JBool True, drop 4 (c # r))
          else if prefix ''false'' (c # r) then Some (JBool False, drop 5 (c # r))
          else readNumber (c # r))"
| "readElements 0 cs acc = None"
| "readElements (Suc n) cs acc =
     (case readValue n cs of
        None \<Rightarrow> None
      | Some (v, r) \<Rightarrow>
          (case dropWhile isJsonSpace r of
             [] \<Rightarrow> None
           | c # r' \<Rightarrow>
               if c = CHR '','' then readElements n r' (acc @ [v])
               else if c = CHR '']'' then Some (JArr (acc @ [v]), r')
               else None))"
| "readMembers 0 cs acc = None"
| "readMembers (Suc n) cs acc =
     (case dropWhile isJsonSpace cs of
        [] \<Rightarrow> None
      | q # r0 \<Rightarrow>
          if q \<noteq> CHR 0x22 then None
          else
            (case readString r0 [] of
               None \<Rightarrow> None
             | Some (k, r1) \<Rightarrow>
                 (case dropWhile isJsonSpace r1 of
                    [] \<Rightarrow> None
                  | c # r2 \<Rightarrow>
                      if c \<noteq> CHR '':'' then None
                      else
                        (case readValue n r2 of
                           None \<Rightarrow> None
                         | Some (v, r3) \<Rightarrow>
                             (case dropWhile isJsonSpace r3 of
                                [] \<Rightarrow> None
                              | c' # r4 \<Rightarrow>
                                  if c' = CHR '','' then readMembers n r4 (setProperty acc k v)
                                  else if c' = CHR ''}'' then Some (JObj (setProperty acc k v), r4)
                                  else None)))))"

definition readJson :: parser where
  "readJson s =
     (case readValue (Suc (length s)) s of
        None \<Rightarrow> None
      | Some (v, r) \<Rightarrow> if dropWhile isJsonSpace r = [] then Some v else None)"


section \<open>The crawl budget (helper-classes/max-crawled-places)\<close>

text \<open>
  The counters are those the response handler writes to directly (lines 217 and 218):
  \<open>enqueuedTotal\<close> and the table \<open>enqueuedPerSearch\<close>, an object with one property for
  each search key. The limits are optional: \<open>None\<close> is no limit.
\<close>

record maxCrawledPlacesTracker =
  enqueuedTotal :: int
  enqueuedPerSearch :: "(string \<times> int) list"
  perSessionLimit :: "int option"
  globalLimit :: "int option"

definition perSearchCount :: "(string \<times> int) list \<Rightarrow> string \<Rightarrow> int" where
  "perSearchCount table k = (case map_of table k of Some n \<Rightarrow> n | None \<Rightarrow> 0)"

fun incrementPerSearch :: "(string \<times> int) list \<Rightarrow> string \<Rightarrow> (string \<times> int) list" where
  "incrementPerSearch [] k = [(k, 1)]"
| "incrementPerSearch ((k', n) # table) k =
     (if k' = k then (k', n + 1) # table else (k', n) # incrementPerSearch table k)"

text \<open>
  Line 218, \<open>enqueuedPerSearch[searchKey]--\<close>. The line runs only after \<open>setEnqueued\<close> has
  succeeded for the same key, which leaves the key in the table (lemma
  \<open>setEnqueued_key_present\<close>); a key that is not in the table is left out here, where
  JavaScript would store NaN.
\<close>

fun decrementPerSearch :: "(string \<times> int) list \<Rightarrow> string \<Rightarrow> (string \<times> int) list" where
  "decrementPerSearch [] k = []"
| "decrementPerSearch ((k', n) # table) k =
     (if k' = k then (k', n - 1) # table else (k', n) # decrementPerSearch table k)"

text \<open>
  Modelled from the spec: the class \<open>MaxCrawledPlacesTracker\<close> is not among the sources.
  \<open>canEnqueueMore\<close> is the design's read-only check \<open>canReserveMore(key)\<close>, and
  \<open>setEnqueued\<close> its \<open>tryReserve(key)\<close>: it "checks \<open>perSessionCount[key] < perSessionLimit\<close>
  and \<open>globalCount < globalLimit\<close>; if both hold, increments both and returns true, else
  returns false and leaves counters unchanged".
\<close>

definition canEnqueueMore :: "maxCrawledPlacesTracker \<Rightarrow> string \<Rightarrow> bool" where
  "canEnqueueMore t k =
     ((case perSessionLimit t of
         None \<Rightarrow> True
       | Some l \<Rightarrow> perSearchCount (enqueuedPerSearch t) k < l)
      \<and> (case globalLimit t of
           None \<Rightarrow> True
         | Some l \<Rightarrow> enqueuedTotal t < l))"

definition setEnqueued :: "maxCrawledPlacesTracker \<Rightarrow> string \<Rightarrow> bool \<times> maxCrawledPlacesTracker" where
  "setEnqueued t k =
     (if canEnqueueMore t k
      then (True, t\<lparr>enqueuedTotal := enqueuedTotal t + 1,
                     enqueuedPerSearch := incrementPerSearch (enqueuedPerSearch t) k\<rparr>)
      else (False, t))"

text \<open>Lines 217 and 218, the two decrements after a duplicate.\<close>

definition releaseEnqueued :: "maxCrawledPlacesTracker \<Rightarrow> string \<Rightarrow> maxCrawledPlacesTracker" where
  "releaseEnqueued t k =
     t\<lparr>enqueuedTotal := enqueuedTotal t - 1,
       enqueuedPerSearch := decrementPerSearch (enqueuedPerSearch t) k\<rparr>"

definition sumPerSearch :: "(string \<times> int) list \<Rightarrow> int" where
  "sumPerSearch table = sum_list (map snd table)"

definition countsAgree :: "maxCrawledPlacesTracker \<Rightarrow> bool" where
  "countsAgree t = (enqueuedTotal t = sumPerSearch (enqueuedPerSearch t))"


section \<open>The request queue\<close>

text \<open>
  The url of a request is either the template
  \<open>https://www.google.com/maps/place/?q=place_id:${placeId}\<close> of line 153, kept as the id
  it is built from, or the address of a link of the page. The four fields of \<open>userData\<close>
  that the handler copies from the decoded record stand together in \<open>placeFields\<close>,
  which is \<open>None\<close> in a request that carries none of them.
\<close>

datatype placeUrl = PlaceIdUrl jsval | LinkUrl string

datatype label = PLACE

record placeFields =
  userCoords :: latLng
  userAddressParsed :: addressParsed
  userIsAdvertisement :: bool
  userCategories :: jsval

record request =
  url :: placeUrl
  uniqueKey :: jsval
  userLabel :: label
  userSearchString :: "string option"
  rank :: "int option"
  userSearchPageUrl :: string
  placeFields :: "placeFields option"
  forefront :: bool

text \<open>
  The queue belongs to the crawling library. A request whose unique key the queue has
  seen is reported as already present and dropped; a new one goes to the front
  (\<open>forefront: true\<close>).
\<close>

definition addRequest :: "request list \<Rightarrow> request \<Rightarrow> bool \<times> request list" where
  "addRequest queue r =
     (if uniqueKey r \<in> uniqueKey ` set queue then (True, queue) else (False, r # queue))"


section \<open>The response handler (enqueue_places.js, enqueuePlacesFromResponse)\<close>

text \<open>What the handler reads of a response and of the page: the two tests of the url
  (lines 100 and 101), the status, the body, \<open>parseInt(queryParams.ech, 10)\<close> (\<open>None\<close> is
  NaN) and \<open>page.url()\<close>.\<close>

record response =
  isSearchPage :: bool
  isDetailPreviewPage :: bool
  status :: int
  bodyText :: string
  ech :: "int option"
  searchPageUrl :: string

record pageStatsError =
  message :: decode_error
  responseStatus :: int
  responseBody :: string

text \<open>\<open>pageStats\<close>; its property \<open>error\<close> is the field \<open>lastError\<close> here.\<close>

record pageStats =
  lastError :: "pageStatsError option"
  isDataPage :: bool
  enqueued :: nat
  pushed :: nat
  totalEnqueued :: nat
  totalPushed :: nat
  found :: nat
  totalFound :: nat
  pageNum :: nat

datatype action = MouseMove int int | MouseWheel int | Delay int

text \<open>Everything a search session changes: the statistics of the page, the budget, the
  queue with the log of the calls of \<open>addRequest\<close>, the three variables of the scrolling
  loop and the actions done on the page.\<close>

record session =
  stats :: pageStats
  tracker :: maxCrawledPlacesTracker
  requestQueue :: "request list"
  addRequestCalls :: "request list"
  numberOfEmptyScrolls :: nat
  lastNumberOfResultsLoadedTotally :: nat
  useDOMFallback :: bool
  actions :: "action list"

text \<open>
  The options of a session. \<open>checkInPolygon\<close> (utils/polygon) is not among the sources;
  it is a parameter, already applied to the geolocation of the run. \<open>MAX_PLACES_PER_PAGE\<close>
  (consts) is a parameter as well. The model is that of the default mode,
  \<open>exportPlaceUrls = false\<close>: lines 164 to 188 are not part of it.
\<close>

record options =
  searchString :: "string option"
  requestUrl :: string
  checkInPolygon :: "latLng \<Rightarrow> bool"
  maxAutomaticZoomOut :: "rat option"
  startZoom :: rat
  MAX_PLACES_PER_PAGE :: nat

text \<open>\<open>searchString || request.url\<close>\<close>

definition searchKey :: "options \<Rightarrow> string" where
  "searchKey opts =
     (case searchString opts of
        None \<Rightarrow> requestUrl opts
      | Some s \<Rightarrow> if s = [] then requestUrl opts else s)"

text \<open>Line 149, with \<open>index\<close> as the loop has it after \<open>index++\<close>.\<close>

definition rankOf :: "int option \<Rightarrow> int \<Rightarrow> int option" where
  "rankOf pageNumber i =
     (case pageNumber of None \<Rightarrow> None | Some p \<Rightarrow> Some (((p - 1) * 20) + (i + 1)))"

definition placeRequest :: "options \<Rightarrow> response \<Rightarrow> int option \<Rightarrow> placePaginationData \<Rightarrow> request" where
  "placeRequest opts resp r p =
     \<lparr>url = PlaceIdUrl (placeId p),
      uniqueKey = placeId p,
      userLabel = PLACE,
      userSearchString = searchString opts,
      rank = r,
      userSearchPageUrl = searchPageUrl resp,
      placeFields = Some \<lparr>userCoords = coords p,
                           userAddressParsed = addressParsed p,
                           userIsAdvertisement = isAdvertisement p,
                           userCategories = categories p\<rparr>,
      forefront = True\<rparr>"

text \<open>
  The loop of lines 147 to 221 in the default mode. The arguments are the loop variable
  \<open>index\<close> before its increment, the records still to visit, and the session with the
  local counter \<open>enqueued\<close>. A record always has its \<open>coords\<close> object, so
  \<open>coords || placesCache.getLocation(..)\<close> is \<open>coords\<close>, and the cache and the statistics
  of the run, which the handler only writes, are left out.
\<close>

fun enqueueLoop ::
  "options \<Rightarrow> response \<Rightarrow> int \<Rightarrow> placePaginationData list \<Rightarrow> session \<times> nat \<Rightarrow> session \<times> nat" where
  "enqueueLoop opts resp i [] (s, n) = (s, n)"
| "enqueueLoop opts resp i (p # rest) (s, n) =
     (if \<not> checkInPolygon opts (coords p) then enqueueLoop opts resp (i + 1) rest (s, n)
      else
        (case setEnqueued (tracker s) (searchKey opts) of
           (False, t) \<Rightarrow> (s, n)
         | (True, t) \<Rightarrow>
             let r = placeRequest opts resp (rankOf (ech resp) (i + 1)) p
             in (case addRequest (requestQueue s) r of
                   (False, q) \<Rightarrow>
                     enqueueLoop opts resp (i + 1) rest
                       (s\<lparr>tracker := t, requestQueue := q,
                          addRequestCalls := addRequestCalls s @ [r]\<rparr>, n + 1)
                 | (True, q) \<Rightarrow>
                     enqueueLoop opts resp (i + 1) rest
                       (s\<lparr>tracker := releaseEnqueued t (searchKey opts), requestQueue := q,
                          addRequestCalls := addRequestCalls s @ [r]\<rparr>, n))))"

text \<open>
  Lines 127 to 240: what the handler does with the result of the decoder. The local
  counter \<open>pushed\<close> stays 0 in the default mode.
\<close>

definition handleDecoded :: "options \<Rightarrow> response \<Rightarrow> decodeResult \<Rightarrow> session \<Rightarrow> session" where
  "handleDecoded opts resp decoded s =
     (let places = placesPaginationData decoded;
          st1 = (case error decoded of
                   None \<Rightarrow> stats s
                 | Some e \<Rightarrow>
                     (stats s)\<lparr>lastError := Some \<lparr>message = e, responseStatus = status resp,
                                                     responseBody = bodyText resp\<rparr>\<rparr>);
          r = enqueueLoop opts resp (- 1) places (s, 0)
      in (fst r)\<lparr>stats := st1\<lparr>found := length places,
                                   totalFound := totalFound st1 + length places,
                                   enqueued := snd r,
                                   totalEnqueued := totalEnqueued st1 + snd r,
                                   pushed := 0,
                                   totalPushed := totalPushed st1 + 0\<rparr>\<rparr>)"

text \<open>
  The handler. The calls into the transport (\<open>response.text\<close>, \<open>Apify.setValue\<close>,
  \<open>addRequest\<close>) are taken to return, so the catch of line 241 is not entered.
\<close>

definition enqueuePlacesFromResponse ::
  "parser \<Rightarrow> fixer \<Rightarrow> options \<Rightarrow> response \<Rightarrow> session \<Rightarrow> session" where
  "enqueuePlacesFromResponse JSON_parse fixFloatNumber opts resp s =
     (if \<not> isSearchPage resp \<and> \<not> isDetailPreviewPage resp then s
      else
        handleDecoded opts resp
          (parseSearchPlacesResponseBody JSON_parse fixFloatNumber
             (bodyText resp) (isDetailPreviewPage resp))
          (s\<lparr>stats := (stats s)\<lparr>isDataPage := True\<rparr>\<rparr>))"


section \<open>The scrolling loop (enqueue_places.js, enqueueAllPlaceDetails)\<close>

text \<open>A link as \<open>extractPlacesFromDOM\<close> returns it. The function runs inside the page;
  its result is an observation of the model.\<close>

record domPlace =
  domPlaceId :: "string option"
  href :: string
  title :: string

text \<open>
  What one iteration of the loop sees: the responses handled since the iteration before
  (the handler runs between two steps of the loop, never inside one), the links of the
  page, the end-of-results signal of line 486, the zoom and the address of the page, and
  the value that \<open>Math.random()\<close> returns.
\<close>

record observation =
  arrivals :: "response list"
  domPlaces :: "domPlace list"
  noMoreResults :: bool
  actualZoom :: rat
  pageUrl :: string
  random :: rat

definition domPlaceUrl :: "domPlace \<Rightarrow> string" where
  "domPlaceUrl d =
     (if prefix ''http'' (href d) then href d else ''https://www.google.com'' @ href d)"

text \<open>\<open>domPlace.placeId || placeUrl\<close>\<close>

definition domUniqueKey :: "domPlace \<Rightarrow> string" where
  "domUniqueKey d =
     (case domPlaceId d of
        None \<Rightarrow> domPlaceUrl d
      | Some k \<Rightarrow> if k = [] then domPlaceUrl d else k)"

definition domRequest :: "options \<Rightarrow> observation \<Rightarrow> nat \<Rightarrow> domPlace \<Rightarrow> request" where
  "domRequest opts obs n d =
     \<lparr>url = LinkUrl (domPlaceUrl d),
      uniqueKey = JStr (domUniqueKey d),
      userLabel = PLACE,
      userSearchString = searchString opts,
      rank = Some (int n + 1),
      userSearchPageUrl = pageUrl obs,
      placeFields = None,
      forefront = True\<rparr>"

text \<open>Lines 447 to 476.\<close>

fun domEnqueueLoop :: "options \<Rightarrow> observation \<Rightarrow> domPlace list \<Rightarrow> session \<Rightarrow> session" where
  "domEnqueueLoop opts obs [] s = s"
| "domEnqueueLoop opts obs (d # rest) s =
     (case setEnqueued (tracker s) (searchKey opts) of
        (False, t) \<Rightarrow> s
      | (True, t) \<Rightarrow>
          let r = domRequest opts obs (totalEnqueued (stats s)) d
          in (case addRequest (requestQueue s) r of
                (False, q) \<Rightarrow>
                  domEnqueueLoop opts obs rest
                    (s\<lparr>tracker := t, requestQueue := q,
                       addRequestCalls := addRequestCalls s @ [r],
                       stats := (stats s)\<lparr>totalEnqueued := totalEnqueued (stats s) + 1,
                                            enqueued := enqueued (stats s) + 1\<rparr>\<rparr>)
              | (True, q) \<Rightarrow>
                  domEnqueueLoop opts obs rest
                    (s\<lparr>tracker := t, requestQueue := q,
                       addRequestCalls := addRequestCalls s @ [r]\<rparr>)))"

datatype finishReason =
    DomFallbackEnqueued
  | ReachedAllResults
  | ScrollingYieldsNoMore
  | CannotEnqueueMore
  | ZoomedOutTooFar
  | FoundMaximumPerPage
  | OnlyKnownOrOutside

text \<open>What line 520 throws, and the body that line 518 stores for it.\<close>

record thrown =
  thrownMessage :: decode_error
  storedBody :: string

datatype outcome =
    Finished finishReason session
  | Thrown thrown session
  | Scrolled session

definition settleDelay :: "rat \<Rightarrow> int" where
  "settleDelay r = 2000 + \<lceil>1000 * r\<rceil>"

text \<open>Lines 483 to 577: the checks in the order of the source, then the scroll.\<close>

definition stopChecks :: "options \<Rightarrow> observation \<Rightarrow> session \<Rightarrow> outcome" where
  "stopChecks opts obs s =
     (if noMoreResults obs then Finished ReachedAllResults s
      else
        let s1 = s\<lparr>numberOfEmptyScrolls :=
                      (if lastNumberOfResultsLoadedTotally s = totalFound (stats s)
                       then numberOfEmptyScrolls s + 1 else 0),
                    lastNumberOfResultsLoadedTotally := totalFound (stats s)\<rparr>
        in if numberOfEmptyScrolls s1 \<ge> 10 then Finished ScrollingYieldsNoMore s1
           else
             (case lastError (stats s1) of
                Some e \<Rightarrow>
                  Thrown \<lparr>thrownMessage = message e, storedBody = responseBody e\<rparr> s1
              | None \<Rightarrow>
                  if \<not> canEnqueueMore (tracker s1) (searchKey opts)
                  then Finished CannotEnqueueMore s1
                  else if (case maxAutomaticZoomOut opts of
                             None \<Rightarrow> False
                           | Some z \<Rightarrow> startZoom opts - actualZoom obs > z)
                  then Finished ZoomedOutTooFar s1
                  else if totalFound (stats s1) \<ge> MAX_PLACES_PER_PAGE opts
                  then Finished FoundMaximumPerPage s1
                  else if found (stats s1) > 0
                          \<and> enqueued (stats s1) + pushed (stats s1) = 0
                  then Finished OnlyKnownOrOutside s1
                  else
                    Scrolled
                      (s1\<lparr>actions := actions s1
                             @ [MouseMove 10 300, Delay 100, MouseWheel 800,
                                Delay (settleDelay (random obs))],
                           stats := (stats s1)\<lparr>pageNum := pageNum (stats s1) + 1\<rparr>\<rparr>)))"

text \<open>One iteration: the fallback of lines 425 to 481, then the checks.\<close>

definition scrollIteration :: "options \<Rightarrow> observation \<Rightarrow> session \<Rightarrow> outcome" where
  "scrollIteration opts obs s =
     (if pageNum (stats s) > 2 \<and> totalFound (stats s) = 0
      then
        let s1 = s\<lparr>useDOMFallback := True\<rparr>
        in if length (domPlaces obs) > 0
           then Finished DomFallbackEnqueued (domEnqueueLoop opts obs (domPlaces obs) s1)
           else stopChecks opts obs s1
      else stopChecks opts obs s)"

definition deliver ::
  "parser \<Rightarrow> fixer \<Rightarrow> options \<Rightarrow> response list \<Rightarrow> session \<Rightarrow> session" where
  "deliver JSON_parse fixFloatNumber opts rs s =
     fold (enqueuePlacesFromResponse JSON_parse fixFloatNumber opts) rs s"

text \<open>
  The loop \<open>for (;;)\<close> of line 422, driven by what the page shows at each iteration. The
  loop goes on as long as the page is observed: the result is \<open>None\<close> when the
  observations end before the loop has returned or thrown.
\<close>

fun scrollingLoop ::
  "parser \<Rightarrow> fixer \<Rightarrow> options \<Rightarrow> observation list \<Rightarrow> session \<Rightarrow> outcome option" where
  "scrollingLoop JSON_parse fixFloatNumber opts [] s = None"
| "scrollingLoop JSON_parse fixFloatNumber opts (obs # rest) s =
     (case scrollIteration opts obs
             (deliver JSON_parse fixFloatNumber opts (arrivals obs) s) of
        Scrolled s' \<Rightarrow> scrollingLoop JSON_parse fixFloatNumber opts rest s'
      | r \<Rightarrow> Some r)"

text \<open>The state in which line 417 enters the loop.\<close>

definition initialSession :: "maxCrawledPlacesTracker \<Rightarrow> request list \<Rightarrow> session" where
  "initialSession t q =
     \<lparr>stats = \<lparr>lastError = None, isDataPage = False, enqueued = 0, pushed = 0,
               totalEnqueued = 0, totalPushed = 0, found = 0, totalFound = 0, pageNum = 1\<rparr>,
      tracker = t,
      requestQueue = q,
      addRequestCalls = [],
      numberOfEmptyScrolls = 0,
      lastNumberOfResultsLoadedTotally = 0,
      useDOMFallback = False,
      actions = []\<rparr>"

section \<open>Predicates and inputs of the statements\<close>

text \<open>Two calls of \<open>addRequest\<close> in the order of their ranks.\<close>

definition rankBelow :: "request \<Rightarrow> request \<Rightarrow> bool" where
  "rankBelow a b =
     (case (rank a, rank b) of (Some x, Some y) \<Rightarrow> x < y | _ \<Rightarrow> False)"

text \<open>
  What the loop of the handler has done to the budget between two of its states: the two
  counters agree, and each has grown by the number of requests the queue took as new,
  which is the growth of the local counter \<open>enqueued\<close>.
\<close>

definition budgetExact :: "options \<Rightarrow> session \<times> nat \<Rightarrow> session \<times> nat \<Rightarrow> bool" where
  "budgetExact opts before after =
     (countsAgree (tracker (fst after))
      \<and> snd before \<le> snd after
      \<and> length (requestQueue (fst after))
          = length (requestQueue (fst before)) + (snd after - snd before)
      \<and> enqueuedTotal (tracker (fst after))
          = enqueuedTotal (tracker (fst before)) + int (snd after - snd before)
      \<and> perSearchCount (enqueuedPerSearch (tracker (fst after))) (searchKey opts)
          = perSearchCount (enqueuedPerSearch (tracker (fst before))) (searchKey opts)
            + int (snd after - snd before))"

text \<open>
  Texts for the concrete cases, and the trees they denote. A place is an array of 79
  entries, all \<open>null\<close> but the coordinates at position 9 and the id, a string, at
  position 78. A document is \<open>null\<close>, a place, or an array of documents; a search body is
  the guard, a line feed and the text of a document.
\<close>

definition nulls :: "nat \<Rightarrow> string" where
  "nulls n = concat (replicate n ''null,'')"

definition quoted :: "string \<Rightarrow> string" where
  "quoted s = [CHR 0x22] @ s @ [CHR 0x22]"

definition plainChar :: "char \<Rightarrow> bool" where
  "plainChar c = (c \<noteq> CHR 0x22 \<and> c \<noteq> CHR 0x5C \<and> (32::nat) \<le> of_char c)"

definition placeText :: "string \<Rightarrow> string" where
  "placeText pid = ''['' @ nulls 9 @ ''[null,null,1,2],'' @ nulls 68 @ quoted pid @ '']''"

definition placeTree :: "string \<Rightarrow> jsval" where
  "placeTree pid =
     JArr (replicate 9 JNull @ [JArr [JNull, JNull, JNum 1, JNum 2]]
           @ replicate 68 JNull @ [JStr pid])"

fun commaSeparated :: "string list \<Rightarrow> string" where
  "commaSeparated [] = []"
| "commaSeparated [x] = x"
| "commaSeparated (x # y # rest) = x @ '','' @ commaSeparated (y # rest)"

datatype doc = DNull | DPlace string | DArr "doc list"

fun docText :: "doc \<Rightarrow> string" where
  "docText DNull = ''null''"
| "docText (DPlace pid) = placeText pid"
| "docText (DArr ds) = ''['' @ commaSeparated (map docText ds) @ '']''"

fun docTree :: "doc \<Rightarrow> jsval" where
  "docTree DNull = JNull"
| "docTree (DPlace pid) = placeTree pid"
| "docTree (DArr ds) = JArr (map docTree ds)"

fun plainDoc :: "doc \<Rightarrow> bool" where
  "plainDoc DNull = True"
| "plainDoc (DPlace pid) = list_all plainChar pid"
| "plainDoc (DArr ds) = list_all plainDoc ds"

text \<open>Enough nested calls of the reader for the text of a document.\<close>

fun docFuel :: "doc \<Rightarrow> nat" where
  "docFuel DNull = 1"
| "docFuel (DPlace pid) = 82"
| "docFuel (DArr ds) = Suc (length ds + sum_list (map docFuel ds))"

definition searchBody :: "doc \<Rightarrow> string" where
  "searchBody d = xssiGuard @ [CHR 0x0A] @ docText d"

text \<open>The place in the wrapper \<open>[null, place]\<close>, as the result lists have it.\<close>

definition wrapped :: "string \<Rightarrow> doc" where
  "wrapped pid = DArr [DNull, DPlace pid]"

definition resultPage :: "string list \<Rightarrow> doc" where
  "resultPage pids = DArr (map wrapped pids)"

text \<open>The record the decoder makes of such a place when \<open>fixFloatNumber\<close> is the
  identity.\<close>

definition samplePlace :: "string \<Rightarrow> placePaginationData" where
  "samplePlace pid =
     \<lparr>placeId = JStr pid,
      coords = \<lparr>lat = JNum 1, lng = JNum 2\<rparr>,
      addressParsed = \<lparr>neighborhood = JUndefined, street = JUndefined, city = JUndefined,
                        postalCode = JUndefined, state = JUndefined, countryCode = JUndefined\<rparr>,
      isAdvertisement = False,
      website = JNull,
      categories = JNull\<rparr>"

definition sampleOptions :: options where
  "sampleOptions =
     \<lparr>searchString = Some ''cafe'',
      requestUrl = ''https://www.google.com/maps/search/cafe'',
      checkInPolygon = (\<lambda>c. True),
      maxAutomaticZoomOut = None,
      startZoom = 15,
      MAX_PLACES_PER_PAGE = 120\<rparr>"

definition noLimits :: maxCrawledPlacesTracker where
  "noLimits = \<lparr>enqueuedTotal = 0, enqueuedPerSearch = [], perSessionLimit = None,
               globalLimit = None\<rparr>"

definition searchResponse :: "int \<Rightarrow> doc \<Rightarrow> response" where
  "searchResponse page d =
     \<lparr>isSearchPage = True, isDetailPreviewPage = False, status = 200,
      bodyText = searchBody d, ech = Some page,
      searchPageUrl = ''https://www.google.com/maps/search/cafe''\<rparr>"


section \<open>Notions of the statements about the decoder\<close>

text \<open>The payload of a search response: lines 654 to 762, up to the tree that the
  advertisements and the structural search read.\<close>

definition searchPayload :: "parser \<Rightarrow> string \<Rightarrow> decode_error + jsval" where
  "searchPayload JSON_parse responseBodyText =
     (let jsonString = cleanGoogleResponse responseBodyText
      in if jsonString = [] then Inl ResponseBodyIsEmpty
         else if looksLikeHtml jsonString then Inl ResponseBodyIsHtml
         else
           (case parseAttempts JSON_parse jsonString of
              Inl e \<Rightarrow> Inl e
            | Inr jsonObject \<Rightarrow> locateData JSON_parse jsonObject))"

fun isPrimitive :: "jsval \<Rightarrow> bool" where
  "isPrimitive (JArr xs) = False"
| "isPrimitive (JObj fs) = False"
| "isPrimitive v = True"

text \<open>The records of the arrays the structural search found, in the order found: an
  array gives a record when it has a truthy id.\<close>

fun foundPlaces :: "fixer \<Rightarrow> found list \<Rightarrow> placePaginationData list" where
  "foundPlaces fixFloatNumber [] = []"
| "foundPlaces fixFloatNumber ((path, node) # rest) =
     (case parseJsonResult fixFloatNumber node False of
        Inr (Some pd) \<Rightarrow>
          if truthy (placeId pd) then pd # foundPlaces fixFloatNumber rest
          else foundPlaces fixFloatNumber rest
      | _ \<Rightarrow> foundPlaces fixFloatNumber rest)"

text \<open>
  Deduplication as the design words it: "exactly one Record for that id, in its
  first-seen position". A record stays, and the later records with its id go.
\<close>

function keepFirstById :: "placePaginationData list \<Rightarrow> placePaginationData list" where
  "keepFirstById [] = []"
| "keepFirstById (p # ps) = p # keepFirstById (filter (\<lambda>q. placeId q \<noteq> placeId p) ps)"
  by pat_completeness auto
termination
  by (relation "measure length") (auto simp: less_Suc_eq_le)

text \<open>The two-layer wrapper: an object whose field \<open>d\<close> holds a text as a JSON string,
  with the double quote, the backslash and the line feed escaped.\<close>

definition escapeChar :: "char \<Rightarrow> string" where
  "escapeChar c =
     (if c = CHR 0x22 then [CHR 0x5C, CHR 0x22]
      else if c = CHR 0x5C then [CHR 0x5C, CHR 0x5C]
      else if c = CHR 0x0A then [CHR 0x5C, CHR ''n'']
      else [c])"

definition jsonString :: "string \<Rightarrow> string" where
  "jsonString s = [CHR 0x22] @ concat (map escapeChar s) @ [CHR 0x22]"

definition wrapperBody :: "string \<Rightarrow> string" where
  "wrapperBody inner =
     ''{'' @ quoted ''c'' @ '':0,'' @ quoted ''d'' @ '':'' @ jsonString inner @ ''}''"

definition escapable :: "char \<Rightarrow> bool" where
  "escapable c = (c = CHR 0x0A \<or> (32::nat) \<le> of_char c)"


text \<open>Documents of the concrete cases: a result list that holds the same place three
  times (twice through its wrapper, once bare) and another place; and a payload with one
  advertisement entry at \<open>data[2][1][0]\<close>, the place at position 15 of the entry, beside
  the same place in the result list.\<close>

definition twiceTheSame :: doc where
  "twiceTheSame = DArr [wrapped ''a'', DPlace ''a'', wrapped ''b'']"

definition adEntry :: "string \<Rightarrow> doc" where
  "adEntry pid = DArr (replicate 15 DNull @ [DPlace pid])"

definition withAdvertisement :: doc where
  "withAdvertisement =
     DArr [DArr [wrapped ''a''], DNull, DArr [DNull, DArr [DArr [adEntry ''a'']]]]"


text \<open>The short metadata frame of the comment of line 807, and a detail preview whose
  place stands at position 6.\<close>

definition metadataFrame :: string where
  "metadataFrame = xssiGuard @ [CHR 0x0A] @ ''[[[2],[3],[5],[6],[7],[9],[10]]]''"

definition previewDoc :: doc where
  "previewDoc = DArr (replicate 6 DNull @ [DPlace ''a''])"


section \<open>Notions of the statements about the scrolling loop\<close>

text \<open>The counter of empty scrolls as line 503 leaves it, the zoom test of lines 532 to
  539 and the test of line 558, each by itself.\<close>

definition emptyScrollsNow :: "session \<Rightarrow> nat" where
  "emptyScrollsNow s =
     (if lastNumberOfResultsLoadedTotally s = totalFound (stats s)
      then numberOfEmptyScrolls s + 1 else 0)"

definition zoomedOutTooFar :: "options \<Rightarrow> observation \<Rightarrow> bool" where
  "zoomedOutTooFar opts obs =
     (case maxAutomaticZoomOut opts of
        None \<Rightarrow> False
      | Some z \<Rightarrow> startZoom opts - actualZoom obs > z)"

definition nothingNewOnStep :: "session \<Rightarrow> bool" where
  "nothingNewOnStep s =
     (found (stats s) > 0 \<and> enqueued (stats s) + pushed (stats s) = 0)"

text \<open>The state after the counter of empty scrolls is brought up to date.\<close>

definition counted :: "session \<Rightarrow> session" where
  "counted s =
     s\<lparr>numberOfEmptyScrolls := emptyScrollsNow s,
       lastNumberOfResultsLoadedTotally := totalFound (stats s)\<rparr>"

text \<open>Observations, responses and links of the concrete cases.\<close>

definition quiet :: observation where
  "quiet =
     \<lparr>arrivals = [], domPlaces = [], noMoreResults = False, actualZoom = 15,
      pageUrl = ''https://www.google.com/maps/search/cafe'', random = 1 / 2\<rparr>"

definition htmlResponse :: response where
  "htmlResponse =
     \<lparr>isSearchPage = True, isDetailPreviewPage = False, status = 200,
      bodyText = ''<!DOCTYPE html><html></html>'', ech = Some 1,
      searchPageUrl = ''https://www.google.com/maps/search/cafe''\<rparr>"

definition cafeLink :: domPlace where
  "cafeLink = \<lparr>domPlaceId = None, href = ''/maps/place/Cafe/data=x'', title = ''Cafe''\<rparr>"

definition barLink :: domPlace where
  "barLink =
     \<lparr>domPlaceId = Some ''ChIJbar'', href = ''https://www.google.com/maps/place/Bar/ChIJbar'',
      title = ''Bar''\<rparr>"

text \<open>Four iterations: nothing arrives during the first three, and before the fourth a
  response with one place arrives while the page shows a link and the end of the
  results.\<close>

definition lateResponse :: "observation list" where
  "lateResponse =
     [quiet, quiet, quiet,
      quiet\<lparr>arrivals := [searchResponse 4 (resultPage [''a''])],
            domPlaces := [cafeLink], noMoreResults := True\<rparr>]"

text \<open>Eleven steps: the same five places arrive before each of them.\<close>

definition fivePlaces :: doc where
  "fivePlaces = resultPage [''a'', ''b'', ''c'', ''d'', ''e'']"

definition stepWithFive :: "int \<Rightarrow> observation" where
  "stepWithFive k = quiet\<lparr>arrivals := [searchResponse k fivePlaces]\<rparr>"

definition elevenSteps :: "observation list" where
  "elevenSteps = map stepWithFive [1, 2, 3, 4, 5, 6, 7, 8, 9, 10, 11]"


text \<open>
  One iteration as the design words it: the seven stop conditions in their order, the
  first that holds ends the iteration, and the scroll when none holds.
\<close>

definition iterationOutcome :: "options \<Rightarrow> observation \<Rightarrow> session \<Rightarrow> outcome" where
  "iterationOutcome opts obs s =
     (if noMoreResults obs then Finished ReachedAllResults s
      else if emptyScrollsNow s \<ge> 10 then Finished ScrollingYieldsNoMore (counted s)
      else if lastError (stats s) \<noteq> None
      then Thrown \<lparr>thrownMessage = message (the (lastError (stats s))),
                   storedBody = responseBody (the (lastError (stats s)))\<rparr> (counted s)
      else if \<not> canEnqueueMore (tracker s) (searchKey opts)
      then Finished CannotEnqueueMore (counted s)
      else if zoomedOutTooFar opts obs then Finished ZoomedOutTooFar (counted s)
      else if totalFound (stats s) \<ge> MAX_PLACES_PER_PAGE opts
      then Finished FoundMaximumPerPage (counted s)
      else if nothingNewOnStep s then Finished OnlyKnownOrOutside (counted s)
      else Scrolled
             ((counted s)\<lparr>actions := actions s
                  @ [MouseMove 10 300, Delay 100, MouseWheel 800,
                     Delay (2000 + \<lceil>1000 * random obs\<rceil>)],
                stats := (stats s)\<lparr>pageNum := pageNum (stats s) + 1\<rparr>\<rparr>))"

text \<open>The flag of line 419 as line 428 leaves it.\<close>

definition fallbackFlag :: "session \<Rightarrow> bool" where
  "fallbackFlag s =
     (useDOMFallback s \<or> (pageNum (stats s) > 2 \<and> totalFound (stats s) = 0))"

text \<open>A budget without limits.\<close>

definition unlimited :: "maxCrawledPlacesTracker \<Rightarrow> bool" where
  "unlimited t = (perSessionLimit t = None \<and> globalLimit t = None)"

text \<open>The session after a response that is an HTML page; a session at its third scroll
  with nothing found; a page that shows two links.\<close>

definition afterHtml :: session where
  "afterHtml =
     enqueuePlacesFromResponse readJson Inr sampleOptions htmlResponse
       (initialSession noLimits [])"

definition thirdScroll :: session where
  "thirdScroll =
     (initialSession noLimits [])
       \<lparr>stats := (stats (initialSession noLimits []))\<lparr>pageNum := 3\<rparr>,
        numberOfEmptyScrolls := 2\<rparr>"

definition twoLinks :: observation where
  "twoLinks = quiet\<lparr>domPlaces := [cafeLink, barLink]\<rparr>"


text \<open>The reason for which a run of the loop has finished, and the session it has left.\<close>

fun finishedWith :: "outcome option \<Rightarrow> finishReason option" where
  "finishedWith (Some (Finished r s)) = Some r"
| "finishedWith _ = None"

fun finalSession :: "outcome option \<Rightarrow> session option" where
  "finalSession (Some (Finished r s)) = Some s"
| "finalSession (Some (Thrown t s)) = Some s"
| "finalSession _ = None"


text \<open>A session and an outcome with the flag of line 419 put aside, to compare two runs
  that differ in the flag only.\<close>

definition withoutFlag :: "session \<Rightarrow> session" where
  "withoutFlag s = s\<lparr>useDOMFallback := False\<rparr>"

fun outcomeWithoutFlag :: "outcome \<Rightarrow> outcome" where
  "outcomeWithoutFlag (Finished r s) = Finished r (withoutFlag s)"
| "outcomeWithoutFlag (Thrown t s) = Thrown t (withoutFlag s)"
| "outcomeWithoutFlag (Scrolled s) = Scrolled (withoutFlag s)"

text \<open>Three iterations: nothing arrives during the first two, and before the third a
  response that is an HTML page arrives while the page shows a link.\<close>

definition errorThenLink :: "observation list" where
  "errorThenLink =
     [quiet, quiet, quiet\<lparr>arrivals := [htmlResponse], domPlaces := [cafeLink]\<rparr>]"

text \<open>A budget with room for one more place of the run.\<close>

definition roomForOne :: maxCrawledPlacesTracker where
  "roomForOne = \<lparr>enqueuedTotal = 0, enqueuedPerSearch = [], perSessionLimit = None,
                 globalLimit = Some 1\<rparr>"

text \<open>
  What the loop over the links has done between two states of a session, \<open>new\<close> being
  the requests it has submitted: they are the requests of the first links of the page,
  in the order of the page, each to the front of the queue and without the fields of a
  decoded record; none is submitted when the budget refuses at once, all are when the
  budget has no limit, and when a link is left over the budget refuses in the end; the
  queue knows the keys it knew and those submitted, each key once.
\<close>

definition submittedInOrder ::
  "options \<Rightarrow> observation \<Rightarrow> domPlace list \<Rightarrow> session \<Rightarrow> session \<Rightarrow> request list \<Rightarrow> bool" where
  "submittedInOrder opts obs ds before after new =
     (addRequestCalls after = addRequestCalls before @ new
      \<and> length new \<le> length ds
      \<and> map url new = map (LinkUrl \<circ> domPlaceUrl) (take (length new) ds)
      \<and> map uniqueKey new = map (JStr \<circ> domUniqueKey) (take (length new) ds)
      \<and> (\<forall>r\<in>set new. forefront r \<and> placeFields r = None \<and> userLabel r = PLACE
                        \<and> userSearchString r = searchString opts
                        \<and> userSearchPageUrl r = pageUrl obs)
      \<and> (\<not> canEnqueueMore (tracker before) (searchKey opts) \<longrightarrow> new = [])
      \<and> (length new < length ds \<longrightarrow> \<not> canEnqueueMore (tracker after) (searchKey opts))
      \<and> (unlimited (tracker before) \<longrightarrow> length new = length ds)
      \<and> uniqueKey ` set (requestQueue after)
          = uniqueKey ` set (requestQueue before) \<union> uniqueKey ` set new
      \<and> (distinct (map uniqueKey (requestQueue before))
           \<longrightarrow> distinct (map uniqueKey (requestQueue after))))"


section \<open>Bodies refused before parsing\<close>

lemma trimEnd_marker_append:
  assumes "m \<noteq> []" "\<not> isSpace (last m)"
  shows "\<exists>t'. trimEnd (m @ t) = m @ t'"
proof (cases "\<forall>x\<in>set (rev t). isSpace x")
  case True
  have "dropWhile isSpace (rev m) = rev m"
    using assms by (cases m rule: rev_cases) auto
  then have "trimEnd (m @ t) = m"
    using True by (simp add: trimEnd_def dropWhile_append)
  then show ?thesis by simp
next
  case False
  then have "trimEnd (m @ t) = m @ rev (dropWhile isSpace (rev t))"
    by (auto simp: trimEnd_def dropWhile_append)
  then show ?thesis by blast
qed

lemma take_comment_keeps_marker:
  assumes "m \<noteq> []" "last m \<notin> set trailingComment" "suffix trailingComment (m @ t)"
  shows "\<exists>t'. take (length (m @ t) - 6) (m @ t) = m @ t'"
proof -
  from assms(3) have "suffix trailingComment t
      \<or> (\<exists>xs. suffix xs m \<and> trailingComment = xs @ t)"
    by (auto simp: suffix_append)
  then have "suffix trailingComment t
      \<or> (\<exists>xs. suffix xs m \<and> trailingComment = xs @ t \<and> xs \<noteq> [])"
    by (metis append_Nil suffix_order.order_refl)
  then consider "suffix trailingComment t"
    | xs where "suffix xs m" "trailingComment = xs @ t" "xs \<noteq> []"
    by blast
  then show ?thesis
  proof cases
    case 1
    then have "length t \<ge> 6" using suffix_length_le[OF 1] by (simp add: trailingComment_def)
    then show ?thesis by simp
  next
    case 2
    from 2(1,3) assms(1) have "last xs = last m"
      by (auto simp: suffix_def)
    moreover have "last xs \<in> set trailingComment"
      using 2(2,3) by (metis Un_iff last_in_set set_append)
    ultimately show ?thesis using assms(2) by simp
  qed
qed

lemma clean_keeps_marker:
  assumes m: "m \<noteq> []" "\<not> isSpace (hd m)" "\<not> isSpace (last m)"
    "last m \<notin> set trailingComment" "hd m \<noteq> CHR '')''"
    and p: "prefix m body"
  shows "prefix m (cleanGoogleResponse body)"
proof -
  from p obtain t where body: "body = m @ t" by (auto simp: prefix_def)
  have "dropWhile isSpace body = body"
    using m(1,2) body by (cases m) auto
  then have "trim body = trimEnd (m @ t)" by (simp add: trim_def body)
  then obtain t1 where t1: "trim body = m @ t1"
    using trimEnd_marker_append[OF m(1) m(3)] by metis
  obtain t2 where t2: "stripTrailingComment (m @ t1) = m @ t2"
  proof (cases "suffix trailingComment (trimEnd (m @ t1))")
    case True
    obtain u where u: "trimEnd (m @ t1) = m @ u"
      using trimEnd_marker_append[OF m(1) m(3)] by metis
    from take_comment_keeps_marker[OF m(1) m(4), of u] True u
    obtain t' where "take (length (m @ u) - 6) (m @ u) = m @ t'" by auto
    then have "stripTrailingComment (m @ t1) = m @ t'"
      using True u by (simp add: stripTrailingComment_def Let_def)
    then show ?thesis using that by blast
  next
    case False
    then have "stripTrailingComment (m @ t1) = m @ t1"
      by (simp add: stripTrailingComment_def Let_def)
    then show ?thesis using that by blast
  qed
  have "\<not> prefix xssiGuard (m @ t2)"
    using m(1,5) by (cases m) (auto simp: xssiGuard_def)
  then have "stripGuard (m @ t2) = m @ t2" by (simp add: stripGuard_def)
  then show ?thesis by (simp add: cleanGoogleResponse_def t1 t2)
qed

lemma looksLikeHtml_clean:
  assumes "looksLikeHtml body"
  shows "looksLikeHtml (cleanGoogleResponse body)"
proof -
  have a: "prefix ''<!DOCTYPE'' body \<Longrightarrow> prefix ''<!DOCTYPE'' (cleanGoogleResponse body)"
    by (rule clean_keeps_marker) (simp_all add: isSpace_def trailingComment_def)
  have b: "prefix ''<html'' body \<Longrightarrow> prefix ''<html'' (cleanGoogleResponse body)"
    by (rule clean_keeps_marker) (simp_all add: isSpace_def trailingComment_def)
  have c: "prefix ''<HTML'' body \<Longrightarrow> prefix ''<HTML'' (cleanGoogleResponse body)"
    by (rule clean_keeps_marker) (simp_all add: isSpace_def trailingComment_def)
  show ?thesis using assms a b c by (auto simp: looksLikeHtml_def)
qed

lemma looksLikeHtml_nonempty: "looksLikeHtml s \<Longrightarrow> s \<noteq> []"
  by (auto simp: looksLikeHtml_def)

lemma looksLikeHtml_doctype: "looksLikeHtml ''<!DOCTYPE html><html></html>''"
  by (simp add: looksLikeHtml_def)

lemma clean_only_artefacts:
  "cleanGoogleResponse (''  '' @ xssiGuard @ ''  '' @ trailingComment @ '' '') = []"
  by (simp add: cleanGoogleResponse_def trim_def trimEnd_def stripTrailingComment_def
      stripGuard_def xssiGuard_def trailingComment_def isSpace_def suffix_def)

text \<open>
  C6. A body that is empty once the envelope artefacts are stripped decodes to no record
  and the error "Response body is empty"; a body that begins with one of the three HTML
  markers of line 665 decodes to no record and the error "Response body appears to be
  HTML instead of JSON". Neither result is the empty result without an error. This holds
  for both kinds of response and whatever the parser does.
\<close>

theorem empty_and_html_bodies:
  "(cleanGoogleResponse body = [] \<longrightarrow>
      parseSearchPlacesResponseBody JSON_parse fixFloatNumber body isAllPacesNoSearch
        = \<lparr>placesPaginationData = [], error = Some ResponseBodyIsEmpty\<rparr>)
   \<and> (looksLikeHtml body \<longrightarrow>
      parseSearchPlacesResponseBody JSON_parse fixFloatNumber body isAllPacesNoSearch
        = \<lparr>placesPaginationData = [], error = Some ResponseBodyIsHtml\<rparr>)
   \<and> (cleanGoogleResponse body = [] \<or> looksLikeHtml body \<longrightarrow>
      error (parseSearchPlacesResponseBody JSON_parse fixFloatNumber body isAllPacesNoSearch)
        \<noteq> None)"
proof -
  have e: "cleanGoogleResponse body = [] \<Longrightarrow>
      parseSearchPlacesResponseBody JSON_parse fixFloatNumber body isAllPacesNoSearch
        = \<lparr>placesPaginationData = [], error = Some ResponseBodyIsEmpty\<rparr>"
    by (simp add: parseSearchPlacesResponseBody_def)
  have h: "looksLikeHtml body \<Longrightarrow>
      parseSearchPlacesResponseBody JSON_parse fixFloatNumber body isAllPacesNoSearch
        = \<lparr>placesPaginationData = [], error = Some ResponseBodyIsHtml\<rparr>"
    using looksLikeHtml_clean[of body] looksLikeHtml_nonempty[of "cleanGoogleResponse body"]
    by (simp add: parseSearchPlacesResponseBody_def)
  show ?thesis using e h by auto
qed

theorem empty_and_html_bodies_witness:
  "cleanGoogleResponse (''  '' @ xssiGuard @ ''  '' @ trailingComment @ '' '') = []
   \<and> parseSearchPlacesResponseBody readJson Inr
        (''  '' @ xssiGuard @ ''  '' @ trailingComment @ '' '') False
      = \<lparr>placesPaginationData = [], error = Some ResponseBodyIsEmpty\<rparr>
   \<and> looksLikeHtml ''<!DOCTYPE html><html></html>''
   \<and> parseSearchPlacesResponseBody readJson Inr ''<!DOCTYPE html><html></html>'' False
      = \<lparr>placesPaginationData = [], error = Some ResponseBodyIsHtml\<rparr>"
  using empty_and_html_bodies
          [of "''  '' @ xssiGuard @ ''  '' @ trailingComment @ '' ''" readJson Inr False]
        empty_and_html_bodies [of "''<!DOCTYPE html><html></html>''" readJson Inr False]
        clean_only_artefacts looksLikeHtml_doctype
  by simp

section \<open>The reference reader on the texts of documents\<close>

lemmas reader_simps = readValue.simps readElements.simps readMembers.simps

lemma readValue_null: "readValue (Suc n) (''null'' @ r) = Some (JNull, r)"
  by (simp add: isJsonSpace_def)

lemma readElements_step:
  "readValue m cs = Some (v, CHR '','' # r) \<Longrightarrow>
   readElements (Suc m) cs acc = readElements m r (acc @ [v])"
  by (simp add: isJsonSpace_def)

lemma readElements_last:
  "readValue m cs = Some (v, CHR '']'' # r) \<Longrightarrow>
   readElements (Suc m) cs acc = Some (JArr (acc @ [v]), r)"
  by (simp add: isJsonSpace_def)

lemma readValue_array:
  "cs \<noteq> [] \<Longrightarrow> \<not> isJsonSpace (hd cs) \<Longrightarrow> hd cs \<noteq> CHR '']'' \<Longrightarrow>
   readValue (Suc m) (CHR ''['' # cs) = readElements m cs []"
  by (cases cs) (simp_all add: isJsonSpace_def)

lemma nulls_Suc: "nulls (Suc k) = ''null,'' @ nulls k"
  by (simp add: nulls_def)

lemma readElements_nulls:
  "readElements (k + Suc n) (nulls k @ r) acc = readElements (Suc n) r (acc @ replicate k JNull)"
proof (induction k arbitrary: acc)
  case 0
  then show ?case by (simp add: nulls_def)
next
  case (Suc k)
  have "readValue (k + Suc n) (''null'' @ CHR '','' # nulls k @ r)
          = Some (JNull, CHR '','' # nulls k @ r)"
    using readValue_null[of "k + n"] by simp
  then have "readElements (Suc (k + Suc n)) (nulls (Suc k) @ r) acc
               = readElements (k + Suc n) (nulls k @ r) (acc @ [JNull])"
    by (simp add: nulls_Suc readElements_step del: reader_simps)
  then show ?case using Suc.IH[of "acc @ [JNull]"]
    by (simp add: replicate_app_Cons_same del: reader_simps)
qed

lemma readString_plain:
  "\<forall>c\<in>set s. plainChar c \<Longrightarrow> readString (s @ CHR 0x22 # r) acc = Some (acc @ s, r)"
  by (induction s arbitrary: acc) (auto simp: plainChar_def)

lemma readValue_string:
  "\<forall>c\<in>set s. plainChar c \<Longrightarrow> readValue (Suc n) (quoted s @ r) = Some (JStr s, r)"
  using readString_plain[of s r "[]"] by (simp add: quoted_def isJsonSpace_def)

lemma readValue_coords:
  "readValue (Suc (Suc (Suc (Suc (Suc (Suc n)))))) (''[null,null,1,2]'' @ r)
     = Some (JArr [JNull, JNull, JNum 1, JNum 2], r)"
  by (simp add: isJsonSpace_def readNumber_def isDigit_def digitVal_def Let_def)

lemma readValue_place_fuel:
  assumes "\<forall>c\<in>set pid. plainChar c"
  shows "readValue (82 + n) (placeText pid @ r) = Some (placeTree pid, r)"
proof -
  let ?tail = "quoted pid @ CHR '']'' # r"
  let ?mid = "''[null,null,1,2]'' @ CHR '','' # nulls 68 @ ?tail"
  have a: "readValue (Suc (Suc n)) ?tail = Some (JStr pid, CHR '']'' # r)"
    using readValue_string[OF assms] by simp
  have b: "readElements (Suc (Suc (Suc n))) ?tail acc = Some (JArr (acc @ [JStr pid]), r)" for acc
    using readElements_last[OF a] .
  have c: "readElements (68 + Suc (Suc (Suc n))) (nulls 68 @ ?tail) acc
             = Some (JArr (acc @ replicate 68 JNull @ [JStr pid]), r)" for acc
    using readElements_nulls[of 68 "Suc (Suc n)" ?tail acc] b by (simp del: reader_simps)
  have d: "readValue (71 + n) (''[null,null,1,2]'' @ CHR '','' # nulls 68 @ ?tail)
             = Some (JArr [JNull, JNull, JNum 1, JNum 2], CHR '','' # nulls 68 @ ?tail)"
    using readValue_coords[of "65 + n" "CHR '','' # nulls 68 @ ?tail"]
    by (simp add: eval_nat_numeral del: reader_simps)
  have e: "readElements (Suc (71 + n)) ?mid acc
             = Some (JArr (acc @ [JArr [JNull, JNull, JNum 1, JNum 2]]
                           @ replicate 68 JNull @ [JStr pid]), r)" for acc
    using readElements_step[OF d, of acc] c[of "acc @ [JArr [JNull, JNull, JNum 1, JNum 2]]"]
    by (simp add: del: reader_simps)
  have f: "readElements (9 + Suc (71 + n)) (nulls 9 @ ?mid) []
             = Some (placeTree pid, r)"
    using readElements_nulls[of 9 "71 + n" ?mid "[]"] e[of "replicate 9 JNull"]
    by (simp add: placeTree_def del: reader_simps)
  have g: "nulls 9 @ ?mid \<noteq> []" "hd (nulls 9 @ ?mid) = CHR ''n''"
    by (simp_all add: nulls_def eval_nat_numeral)
  have "readValue (Suc (9 + Suc (71 + n))) (CHR ''['' # nulls 9 @ ?mid) = Some (placeTree pid, r)"
    using readValue_array[of "nulls 9 @ ?mid" "9 + Suc (71 + n)"] g f
    by (simp add: isJsonSpace_def del: reader_simps)
  moreover have "placeText pid @ r = CHR ''['' # nulls 9 @ ?mid"
    by (simp add: placeText_def)
  moreover have "Suc (9 + Suc (71 + n)) = 82 + n" by simp
  ultimately show ?thesis by (simp del: reader_simps)
qed

lemma readValue_place:
  assumes "\<forall>c\<in>set pid. plainChar c" "82 \<le> m"
  shows "readValue m (placeText pid @ r) = Some (placeTree pid, r)"
proof -
  from assms(2) obtain n where "m = 82 + n" using le_Suc_ex by blast
  then show ?thesis using readValue_place_fuel[OF assms(1)] by simp
qed


lemma commaSeparated_Cons:
  "commaSeparated (x # xs) = (if xs = [] then x else x @ CHR '','' # commaSeparated xs)"
  by (cases xs) simp_all

lemma docText_head: "docText d \<noteq> [] \<and> \<not> isJsonSpace (hd (docText d)) \<and> hd (docText d) \<noteq> CHR '']''"
  by (cases d) (simp_all add: isJsonSpace_def placeText_def)

lemma readElements_docs:
  assumes each: "\<And>d m r. d \<in> set ds \<Longrightarrow> docFuel d \<le> m \<Longrightarrow>
                   readValue m (docText d @ r) = Some (docTree d, r)"
    and "ds \<noteq> []" "length ds + sum_list (map docFuel ds) \<le> m"
  shows "readElements m (commaSeparated (map docText ds) @ CHR '']'' # r) acc
           = Some (JArr (acc @ map docTree ds), r)"
  using assms
proof (induction ds arbitrary: m acc)
  case Nil
  then show ?case by simp
next
  case (Cons d ds)
  from Cons.prems(3) obtain k where m: "m = Suc k" and k: "docFuel d \<le> k"
      "length ds + sum_list (map docFuel ds) \<le> k"
    by (cases m) auto
  show ?case
  proof (cases "ds = []")
    case True
    have "readValue k (docText d @ CHR '']'' # r) = Some (docTree d, CHR '']'' # r)"
      using Cons.prems(1)[of d k] k by simp
    from readElements_last[OF this] show ?thesis using True m by (simp del: reader_simps)
  next
    case False
    let ?rest = "commaSeparated (map docText ds) @ CHR '']'' # r"
    have "readValue k (docText d @ CHR '','' # ?rest) = Some (docTree d, CHR '','' # ?rest)"
      using Cons.prems(1)[of d k] k by simp
    from readElements_step[OF this]
    have "readElements (Suc k) (docText d @ CHR '','' # ?rest) acc
            = readElements k ?rest (acc @ [docTree d])" .
    moreover have "readElements k ?rest (acc @ [docTree d])
            = Some (JArr ((acc @ [docTree d]) @ map docTree ds), r)"
      using Cons.IH[of k "acc @ [docTree d]"] Cons.prems(1) False k by auto
    ultimately show ?thesis using False m
      by (simp add: commaSeparated_Cons del: reader_simps)
  qed
qed

lemma readValue_doc:
  "plainDoc d \<Longrightarrow> docFuel d \<le> m \<Longrightarrow> readValue m (docText d @ r) = Some (docTree d, r)"
proof (induction d arbitrary: m r)
  case DNull
  then obtain k where "m = Suc k" by (cases m) auto
  then show ?case using readValue_null[of k r] by (simp del: reader_simps)
next
  case (DPlace pid)
  then show ?case using readValue_place[of pid m r] by (simp add: list_all_iff del: reader_simps)
next
  case (DArr ds)
  from DArr.prems(2) obtain k where m: "m = Suc k"
      and k: "length ds + sum_list (map docFuel ds) \<le> k"
    by (cases m) auto
  show ?case
  proof (cases "ds = []")
    case True
    then show ?thesis using m by (simp add: isJsonSpace_def)
  next
    case False
    let ?cs = "commaSeparated (map docText ds) @ CHR '']'' # r"
    have each: "\<And>d m r. d \<in> set ds \<Longrightarrow> docFuel d \<le> m \<Longrightarrow>
                   readValue m (docText d @ r) = Some (docTree d, r)"
      using DArr.IH DArr.prems(1) by (simp add: list_all_iff)
    have body: "readElements k ?cs [] = Some (JArr ([] @ map docTree ds), r)"
      by (rule readElements_docs[OF each False k])
    obtain d ds' where ds: "ds = d # ds'" using False by (cases ds) auto
    have hd: "?cs \<noteq> []" "\<not> isJsonSpace (hd ?cs)" "hd ?cs \<noteq> CHR '']''"
      using docText_head[of d] by (auto simp: ds commaSeparated_Cons)
    have "readValue (Suc k) (CHR ''['' # ?cs) = readElements k ?cs []"
      by (rule readValue_array[OF hd])
    then show ?thesis using body m by (simp del: reader_simps)
  qed
qed

lemma length_nulls: "length (nulls k) = 5 * k"
  by (induction k) (simp_all add: nulls_def)

lemma docFuel_le_length: "docFuel d \<le> length (docText d)"
proof (induction d)
  case DNull
  then show ?case by simp
next
  case (DPlace pid)
  then show ?case by (simp add: placeText_def length_nulls quoted_def)
next
  case (DArr ds)
  have "length ds + sum_list (map docFuel ds) \<le> Suc (length (commaSeparated (map docText ds)))"
    using DArr.IH
  proof (induction ds)
    case Nil
    then show ?case by simp
  next
    case (Cons d ds)
    have d: "docFuel d \<le> length (docText d)" using Cons.prems by simp
    have rest: "length ds + sum_list (map docFuel ds)
                  \<le> Suc (length (commaSeparated (map docText ds)))"
      using Cons.IH Cons.prems by simp
    show ?case using d rest by (simp add: commaSeparated_Cons)
  qed
  then show ?case by simp
qed

lemma readJson_doc: "plainDoc d \<Longrightarrow> readJson (docText d) = Some (docTree d)"
  using readValue_doc[of d "Suc (length (docText d))" "[]"] docFuel_le_length[of d]
  by (simp add: readJson_def)

section \<open>Ranks\<close>

lemma enqueueLoop_calls:
  "i = int j - 1 \<Longrightarrow>
   \<exists>new. addRequestCalls (fst (enqueueLoop opts resp i recs (s, n))) = addRequestCalls s @ new
     \<and> subseq new (map (\<lambda>(k, pd). placeRequest opts resp (rankOf (ech resp) (int k)) pd)
                      (enumerate j recs))"
proof (induction recs arbitrary: i j s n)
  case Nil
  then show ?case by simp
next
  case (Cons p rest)
  have next_i: "i + 1 = int (Suc j) - 1" using Cons.prems by simp
  have this_i: "i + 1 = int j" using Cons.prems by simp
  let ?exp = "map (\<lambda>(k, pd). placeRequest opts resp (rankOf (ech resp) (int k)) pd)
                (enumerate (Suc j) rest)"
  let ?r = "placeRequest opts resp (rankOf (ech resp) (int j)) p"
  show ?case
  proof (cases "checkInPolygon opts (coords p)")
    case False
    from Cons.IH[OF next_i, of s n] obtain new where
      "addRequestCalls (fst (enqueueLoop opts resp (i + 1) rest (s, n))) = addRequestCalls s @ new"
      "subseq new ?exp" by blast
    then show ?thesis using False by (auto intro: subseq_Cons')
  next
    case True
    show ?thesis
    proof (cases "fst (setEnqueued (tracker s) (searchKey opts))")
      case False
      then show ?thesis using True by (auto split: prod.splits)
    next
      case ok: True
      obtain t where t: "setEnqueued (tracker s) (searchKey opts) = (True, t)"
        using ok by (cases "setEnqueued (tracker s) (searchKey opts)") auto
      obtain b q where a: "addRequest (requestQueue s) ?r = (b, q)" by fastforce
      define s' where "s' = (if b
          then s\<lparr>tracker := releaseEnqueued t (searchKey opts), requestQueue := q,
                  addRequestCalls := addRequestCalls s @ [?r]\<rparr>
          else s\<lparr>tracker := t, requestQueue := q,
                  addRequestCalls := addRequestCalls s @ [?r]\<rparr>)"
      define n' where "n' = (if b then n else n + 1)"
      have step: "enqueueLoop opts resp i (p # rest) (s, n)
                    = enqueueLoop opts resp (i + 1) rest (s', n')"
        using True t a this_i by (simp add: s'_def n'_def)
      from Cons.IH[OF next_i, of s' n'] obtain new where
        new: "addRequestCalls (fst (enqueueLoop opts resp (i + 1) rest (s', n')))
                = addRequestCalls s' @ new" "subseq new ?exp" by blast
      have "addRequestCalls s' = addRequestCalls s @ [?r]" by (simp add: s'_def)
      then have "addRequestCalls (fst (enqueueLoop opts resp i (p # rest) (s, n)))
                   = addRequestCalls s @ (?r # new)"
        using new(1) step by simp
      moreover have "subseq (?r # new)
          (map (\<lambda>(k, pd). placeRequest opts resp (rankOf (ech resp) (int k)) pd)
             (enumerate j (p # rest)))"
        using new(2) by simp
      ultimately show ?thesis by blast
    qed
  qed
qed

lemma enumerate_increasing:
  "sorted_wrt (\<lambda>a b. fst a < fst b) (enumerate j recs)"
proof (induction recs arbitrary: j)
  case Nil
  then show ?case by simp
next
  case (Cons p rest)
  have "\<forall>x \<in> set (enumerate (Suc j) rest). j < fst x"
    by (auto simp: in_set_enumerate_eq)
  then show ?case using Cons.IH[of "Suc j"] by simp
qed

lemma sorted_wrt_subseq: "subseq xs ys \<Longrightarrow> sorted_wrt R ys \<Longrightarrow> sorted_wrt R xs"
proof (induction rule: list_emb.induct)
  case (list_emb_Nil ys)
  then show ?case by simp
next
  case (list_emb_Cons xs ys y)
  then show ?case by simp
next
  case (list_emb_Cons2 x y xs ys)
  then show ?case by (auto dest: list_emb_set)
qed

section \<open>The budget in the loop of the handler\<close>

lemma sum_incrementPerSearch: "sumPerSearch (incrementPerSearch table k) = sumPerSearch table + 1"
  by (induction table k rule: incrementPerSearch.induct) (auto simp: sumPerSearch_def)

lemma sum_decrementPerSearch:
  "k \<in> fst ` set table \<Longrightarrow> sumPerSearch (decrementPerSearch table k) = sumPerSearch table - 1"
  by (induction table k rule: decrementPerSearch.induct) (auto simp: sumPerSearch_def)

lemma key_incrementPerSearch: "k \<in> fst ` set (incrementPerSearch table k)"
  by (induction table k rule: incrementPerSearch.induct) auto

lemma count_incrementPerSearch:
  "perSearchCount (incrementPerSearch table k) k' =
     (if k' = k then perSearchCount table k + 1 else perSearchCount table k')"
  by (induction table k rule: incrementPerSearch.induct) (auto simp: perSearchCount_def)

lemma count_decrementPerSearch:
  "k \<in> fst ` set table \<Longrightarrow>
   perSearchCount (decrementPerSearch table k) k' =
     (if k' = k then perSearchCount table k - 1 else perSearchCount table k')"
proof (induction table k rule: decrementPerSearch.induct)
  case (1 k)
  then show ?case by simp
next
  case (2 k0 n table k)
  show ?case
  proof (cases "k0 = k")
    case True
    then show ?thesis by (simp add: perSearchCount_def)
  next
    case False
    then have "k \<in> fst ` set table" using "2.prems" by auto
    from "2.IH"[OF False this] show ?thesis using False
      unfolding perSearchCount_def by (auto split: if_splits)
  qed
qed

lemma setEnqueued_key_present:
  "setEnqueued t k = (True, t') \<Longrightarrow> k \<in> fst ` set (enqueuedPerSearch t')"
  by (auto simp: setEnqueued_def key_incrementPerSearch split: if_splits)

lemma setEnqueued_counts:
  assumes "setEnqueued t k = (True, t')"
  shows "enqueuedTotal t' = enqueuedTotal t + 1"
    and "perSearchCount (enqueuedPerSearch t') k = perSearchCount (enqueuedPerSearch t) k + 1"
    and "countsAgree t \<Longrightarrow> countsAgree t'"
    and "canEnqueueMore t k"
  using assms
  by (auto simp: setEnqueued_def countsAgree_def sum_incrementPerSearch count_incrementPerSearch
      split: if_splits)

lemma setEnqueued_refused:
  "setEnqueued t k = (False, t') \<Longrightarrow> t' = t \<and> \<not> canEnqueueMore t k"
  by (auto simp: setEnqueued_def split: if_splits)

lemma release_after_setEnqueued:
  assumes "setEnqueued t k = (True, t')"
  shows "enqueuedTotal (releaseEnqueued t' k) = enqueuedTotal t"
    and "perSearchCount (enqueuedPerSearch (releaseEnqueued t' k)) k
           = perSearchCount (enqueuedPerSearch t) k"
    and "countsAgree t \<Longrightarrow> countsAgree (releaseEnqueued t' k)"
proof -
  have p: "k \<in> fst ` set (enqueuedPerSearch t')" using assms by (rule setEnqueued_key_present)
  show "enqueuedTotal (releaseEnqueued t' k) = enqueuedTotal t"
    using setEnqueued_counts(1)[OF assms] by (simp add: releaseEnqueued_def)
  show "perSearchCount (enqueuedPerSearch (releaseEnqueued t' k)) k
           = perSearchCount (enqueuedPerSearch t) k"
    using setEnqueued_counts(2)[OF assms] p
    by (simp add: releaseEnqueued_def count_decrementPerSearch)
  show "countsAgree t \<Longrightarrow> countsAgree (releaseEnqueued t' k)"
    using setEnqueued_counts(1,3)[OF assms] p
    by (simp add: releaseEnqueued_def countsAgree_def sum_decrementPerSearch)
qed

lemma unlimited_canEnqueueMore: "unlimited t \<Longrightarrow> canEnqueueMore t k"
  by (simp add: unlimited_def canEnqueueMore_def)

lemma unlimited_setEnqueued:
  "unlimited t \<Longrightarrow> \<exists>t'. setEnqueued t k = (True, t') \<and> unlimited t'"
  by (simp add: setEnqueued_def unlimited_canEnqueueMore) (simp add: unlimited_def)

lemma unlimited_releaseEnqueued: "unlimited t \<Longrightarrow> unlimited (releaseEnqueued t k)"
  by (simp add: unlimited_def releaseEnqueued_def)

lemma addRequest_length:
  "addRequest q r = (b, q') \<Longrightarrow> length q' = length q + (if b then 0 else 1)"
  by (auto simp: addRequest_def split: if_splits)

lemma addRequest_present:
  "addRequest q r = (b, q') \<Longrightarrow> b = (uniqueKey r \<in> uniqueKey ` set q)"
  by (auto simp: addRequest_def split: if_splits)

lemma budgetExact_refl: "countsAgree (tracker s) \<Longrightarrow> budgetExact opts (s, n) (s, n)"
  by (simp add: budgetExact_def)

lemma budgetExact_trans:
  "budgetExact opts a b \<Longrightarrow> budgetExact opts b c \<Longrightarrow> budgetExact opts a c"
  by (auto simp: budgetExact_def)

lemma enqueueLoop_budget:
  "countsAgree (tracker s) \<Longrightarrow>
   budgetExact opts (s, n) (enqueueLoop opts resp i recs (s, n))"
proof (induction recs arbitrary: i s n)
  case Nil
  then show ?case by (simp add: budgetExact_refl)
next
  case (Cons p rest)
  show ?case
  proof (cases "checkInPolygon opts (coords p)")
    case False
    then show ?thesis using Cons.IH[OF Cons.prems] by simp
  next
    case True
    obtain ok t where t: "setEnqueued (tracker s) (searchKey opts) = (ok, t)" by fastforce
    show ?thesis
    proof (cases ok)
      case False
      then show ?thesis using True t Cons.prems by (simp add: budgetExact_refl)
    next
      case ok: True
      let ?r = "placeRequest opts resp (rankOf (ech resp) (i + 1)) p"
      obtain b q where a: "addRequest (requestQueue s) ?r = (b, q)" by fastforce
      define s' where "s' = (if b
          then s\<lparr>tracker := releaseEnqueued t (searchKey opts), requestQueue := q,
                  addRequestCalls := addRequestCalls s @ [?r]\<rparr>
          else s\<lparr>tracker := t, requestQueue := q,
                  addRequestCalls := addRequestCalls s @ [?r]\<rparr>)"
      define n' where "n' = (if b then n else n + 1)"
      have step: "enqueueLoop opts resp i (p # rest) (s, n)
                    = enqueueLoop opts resp (i + 1) rest (s', n')"
        using True t ok a by (simp add: s'_def n'_def)
      have t': "setEnqueued (tracker s) (searchKey opts) = (True, t)" using t ok by simp
      have one: "budgetExact opts (s, n) (s', n')"
        using addRequest_length[OF a] Cons.prems
          setEnqueued_counts(1,2,3)[OF t'] release_after_setEnqueued[OF t']
        by (auto simp: budgetExact_def s'_def n'_def)
      then have "countsAgree (tracker s')" by (simp add: budgetExact_def)
      from Cons.IH[OF this] have "budgetExact opts (s', n')
          (enqueueLoop opts resp (i + 1) rest (s', n'))" .
      then show ?thesis using one step budgetExact_trans by metis
    qed
  qed
qed

section \<open>Decoding the sample bodies\<close>

lemma trimEnd_id: "s \<noteq> [] \<Longrightarrow> \<not> isSpace (last s) \<Longrightarrow> trimEnd s = s"
  by (cases s rule: rev_cases) (simp_all add: trimEnd_def)

lemma no_trailingComment: "s \<noteq> [] \<Longrightarrow> last s = CHR '']'' \<Longrightarrow> \<not> suffix trailingComment s"
  by (cases s rule: rev_cases) (auto simp: suffix_def trailingComment_def)

lemma clean_searchBody: "cleanGoogleResponse (searchBody (DArr ds)) = docText (DArr ds)"
proof -
  let ?s = "searchBody (DArr ds)"
  have l: "?s \<noteq> []" "last ?s = CHR '']''" by (simp_all add: searchBody_def)
  have "dropWhile isSpace ?s = ?s" by (simp add: searchBody_def xssiGuard_def isSpace_def)
  then have "trim ?s = ?s" using trimEnd_id[OF l(1)] l(2) by (simp add: trim_def isSpace_def)
  moreover have "stripTrailingComment ?s = ?s"
    using trimEnd_id[OF l(1)] l(2) no_trailingComment[OF l]
    by (simp add: stripTrailingComment_def isSpace_def)
  moreover have "stripGuard ?s = docText (DArr ds)"
    by (simp add: stripGuard_def searchBody_def xssiGuard_def isSpace_def)
  ultimately show ?thesis by (simp add: cleanGoogleResponse_def)
qed

lemma decode_searchBody:
  assumes "JSON_parse (docText (DArr ds)) = Some (JArr xs)"
  shows "parseSearchPlacesResponseBody JSON_parse fixFloatNumber (searchBody (DArr ds)) False
           = searchPlaces fixFloatNumber (JArr xs)"
proof -
  have "\<not> looksLikeHtml (docText (DArr ds))" by (simp add: looksLikeHtml_def)
  then show ?thesis using assms
    by (simp add: parseSearchPlacesResponseBody_def clean_searchBody parseAttempts_def
        locateData_def propD_def)
qed

lemma decode_searchBody_readJson:
  "plainDoc (DArr ds) \<Longrightarrow>
   parseSearchPlacesResponseBody readJson fixFloatNumber (searchBody (DArr ds)) False
     = searchPlaces fixFloatNumber (JArr (map docTree ds))"
  using decode_searchBody[of readJson ds "map docTree ds"] readJson_doc[of "DArr ds"] by simp

lemma searchPlaces_two:
  "searchPlaces Inr (JArr (map docTree (map wrapped [''a'', ''b''])))
     = \<lparr>placesPaginationData = [samplePlace ''a'', samplePlace ''b''], error = None\<rparr>"
  by code_simp

lemma decode_two:
  "parseSearchPlacesResponseBody readJson Inr (searchBody (resultPage [''a'', ''b''])) False
     = \<lparr>placesPaginationData = [samplePlace ''a'', samplePlace ''b''], error = None\<rparr>"
proof -
  have "plainDoc (resultPage [''a'', ''b''])" by code_simp
  then show ?thesis
    using decode_searchBody_readJson[of "map wrapped [''a'', ''b'']" Inr] searchPlaces_two
    by (simp only: resultPage_def)
qed


section \<open>The rank of a record\<close>

text \<open>
  C1. When the url of a response carries the page index \<open>p\<close> (\<open>ech\<close> parsed as an integer),
  the requests that the handler submits for it are, in order, requests of the decoded
  records taken in increasing offset, and the request of the record at offset \<open>offset\<close>
  carries the rank \<open>(p - 1) * 20 + offset + 1\<close>; so the ranks of the submitted requests
  increase strictly. (A record outside the polygon is skipped and the loop stops when
  the budget is used up: such records get no request and no rank.)
\<close>

theorem rank_from_page_and_offset:
  assumes "ech resp = Some p"
  shows "\<exists>new. addRequestCalls (enqueuePlacesFromResponse JSON_parse fixFloatNumber opts resp s)
            = addRequestCalls s @ new
     \<and> subseq new
         (map (\<lambda>(offset, pd). placeRequest opts resp (Some ((p - 1) * 20 + int offset + 1)) pd)
            (enumerate 0 (placesPaginationData
               (parseSearchPlacesResponseBody JSON_parse fixFloatNumber
                  (bodyText resp) (isDetailPreviewPage resp)))))
     \<and> sorted_wrt rankBelow new"
proof -
  let ?recs = "placesPaginationData
     (parseSearchPlacesResponseBody JSON_parse fixFloatNumber
        (bodyText resp) (isDetailPreviewPage resp))"
  let ?f = "\<lambda>(offset, pd). placeRequest opts resp (Some ((p - 1) * 20 + int offset + 1)) pd"
  let ?exp = "map ?f (enumerate 0 ?recs)"
  let ?s0 = "s\<lparr>stats := (stats s)\<lparr>isDataPage := True\<rparr>\<rparr>"
  have f: "(\<lambda>(k, pd). placeRequest opts resp (rankOf (ech resp) (int k)) pd) = ?f"
    using assms by (auto simp: rankOf_def fun_eq_iff)
  obtain new where new:
    "addRequestCalls (enqueuePlacesFromResponse JSON_parse fixFloatNumber opts resp s)
       = addRequestCalls s @ new" "subseq new ?exp"
  proof (cases "\<not> isSearchPage resp \<and> \<not> isDetailPreviewPage resp")
    case True
    then have "addRequestCalls (enqueuePlacesFromResponse JSON_parse fixFloatNumber opts resp s)
       = addRequestCalls s @ []" by (simp add: enqueuePlacesFromResponse_def)
    then show ?thesis using that[of "[]"] by simp
  next
    case False
    from enqueueLoop_calls[of "-1" 0 opts resp ?recs ?s0 0] obtain new where
      n: "addRequestCalls (fst (enqueueLoop opts resp (- 1) ?recs (?s0, 0)))
            = addRequestCalls ?s0 @ new"
         "subseq new ?exp" unfolding f by auto
    have "addRequestCalls (enqueuePlacesFromResponse JSON_parse fixFloatNumber opts resp s)
       = addRequestCalls (fst (enqueueLoop opts resp (- 1) ?recs (?s0, 0)))"
      using False by (auto simp: enqueuePlacesFromResponse_def handleDecoded_def Let_def)
    then show ?thesis using that n by simp
  qed
  have "sorted_wrt (\<lambda>a b. rankBelow (?f a) (?f b)) (enumerate 0 ?recs)"
    by (rule sorted_wrt_mono_rel[OF _ enumerate_increasing])
       (auto simp: rankBelow_def placeRequest_def)
  then have "sorted_wrt rankBelow ?exp" by (simp add: sorted_wrt_map)
  then have "sorted_wrt rankBelow new"
    using sorted_wrt_subseq[OF new(2)] by blast
  then show ?thesis using new by blast
qed

lemma handle_two:
  "map rank (addRequestCalls (handleDecoded sampleOptions (searchResponse 2 (resultPage [''a'', ''b'']))
      \<lparr>placesPaginationData = [samplePlace ''a'', samplePlace ''b''], error = None\<rparr>
      ((initialSession noLimits [])\<lparr>stats := (stats (initialSession noLimits []))\<lparr>isDataPage := True\<rparr>\<rparr>)))
   = [Some 21, Some 22]"
  by code_simp

theorem rank_from_page_and_offset_witness:
  "ech (searchResponse 2 (resultPage [''a'', ''b''])) = Some 2
   \<and> (\<exists>new. addRequestCalls
          (enqueuePlacesFromResponse readJson Inr sampleOptions
             (searchResponse 2 (resultPage [''a'', ''b''])) (initialSession noLimits []))
          = addRequestCalls (initialSession noLimits []) @ new
        \<and> subseq new
            (map (\<lambda>(offset, pd).
                    placeRequest sampleOptions (searchResponse 2 (resultPage [''a'', ''b'']))
                      (Some ((2 - 1) * 20 + int offset + 1)) pd)
               (enumerate 0 (placesPaginationData
                  (parseSearchPlacesResponseBody readJson Inr
                     (bodyText (searchResponse 2 (resultPage [''a'', ''b''])))
                     (isDetailPreviewPage (searchResponse 2 (resultPage [''a'', ''b''])))))))
        \<and> sorted_wrt rankBelow new)
   \<and> map rank (addRequestCalls
          (enqueuePlacesFromResponse readJson Inr sampleOptions
             (searchResponse 2 (resultPage [''a'', ''b''])) (initialSession noLimits [])))
      = [Some 21, Some 22]"
proof -
  have h: "ech (searchResponse 2 (resultPage [''a'', ''b''])) = Some 2"
    by (simp add: searchResponse_def)
  have e: "enqueuePlacesFromResponse readJson Inr sampleOptions
             (searchResponse 2 (resultPage [''a'', ''b''])) (initialSession noLimits [])
          = handleDecoded sampleOptions (searchResponse 2 (resultPage [''a'', ''b'']))
      \<lparr>placesPaginationData = [samplePlace ''a'', samplePlace ''b''], error = None\<rparr>
      ((initialSession noLimits [])\<lparr>stats := (stats (initialSession noLimits []))\<lparr>isDataPage := True\<rparr>\<rparr>)"
    using decode_two by (simp add: enqueuePlacesFromResponse_def searchResponse_def)
  show ?thesis
    using h rank_from_page_and_offset[OF h, of readJson Inr sampleOptions "initialSession noLimits []"]
      handle_two e
    by (intro conjI) (simp_all only:)
qed


section \<open>The budget after each record\<close>

text \<open>
  C8. In the default mode, for a record inside the polygon: the budget is reserved first
  (both counters go up by one), and if it cannot be reserved nothing is submitted and
  the loop ends; the record is then submitted, and if the queue reports its key as
  already present both counters go down by one again and \<open>enqueued\<close> stays, otherwise
  \<open>enqueued\<close> goes up by one. Over any list of records the total count stays equal to
  the sum of the counts of the searches, and both counters grow by exactly the number of
  requests the queue took as new.
\<close>

theorem budget_counts_stay_exact:
  assumes "countsAgree (tracker s)"
  shows "budgetExact opts (s, n) (enqueueLoop opts resp i recs (s, n))
     \<and> (checkInPolygon opts (coords p) \<longrightarrow>
          (if canEnqueueMore (tracker s) (searchKey opts)
           then (let r = placeRequest opts resp (rankOf (ech resp) (i + 1)) p;
                     t = snd (setEnqueued (tracker s) (searchKey opts))
                 in enqueuedTotal t = enqueuedTotal (tracker s) + 1
                    \<and> perSearchCount (enqueuedPerSearch t) (searchKey opts)
                        = perSearchCount (enqueuedPerSearch (tracker s)) (searchKey opts) + 1
                    \<and> (if uniqueKey r \<in> uniqueKey ` set (requestQueue s)
                        then enqueueLoop opts resp i [p] (s, n)
                               = (s\<lparr>tracker := releaseEnqueued t (searchKey opts),
                                     requestQueue := requestQueue s,
                                     addRequestCalls := addRequestCalls s @ [r]\<rparr>, n)
                             \<and> enqueuedTotal (releaseEnqueued t (searchKey opts))
                                 = enqueuedTotal (tracker s)
                             \<and> perSearchCount
                                   (enqueuedPerSearch (releaseEnqueued t (searchKey opts)))
                                   (searchKey opts)
                                 = perSearchCount (enqueuedPerSearch (tracker s)) (searchKey opts)
                        else enqueueLoop opts resp i [p] (s, n)
                               = (s\<lparr>tracker := t,
                                     requestQueue := r # requestQueue s,
                                     addRequestCalls := addRequestCalls s @ [r]\<rparr>, n + 1)))
           else enqueueLoop opts resp i (p # rest) (s, n) = (s, n)))"
proof (intro conjI impI)
  show "budgetExact opts (s, n) (enqueueLoop opts resp i recs (s, n))"
    using assms by (rule enqueueLoop_budget)
next
  assume inside: "checkInPolygon opts (coords p)"
  show "if canEnqueueMore (tracker s) (searchKey opts)
           then (let r = placeRequest opts resp (rankOf (ech resp) (i + 1)) p;
                     t = snd (setEnqueued (tracker s) (searchKey opts))
                 in enqueuedTotal t = enqueuedTotal (tracker s) + 1
                    \<and> perSearchCount (enqueuedPerSearch t) (searchKey opts)
                        = perSearchCount (enqueuedPerSearch (tracker s)) (searchKey opts) + 1
                    \<and> (if uniqueKey r \<in> uniqueKey ` set (requestQueue s)
                        then enqueueLoop opts resp i [p] (s, n)
                               = (s\<lparr>tracker := releaseEnqueued t (searchKey opts),
                                     requestQueue := requestQueue s,
                                     addRequestCalls := addRequestCalls s @ [r]\<rparr>, n)
                             \<and> enqueuedTotal (releaseEnqueued t (searchKey opts))
                                 = enqueuedTotal (tracker s)
                             \<and> perSearchCount
                                   (enqueuedPerSearch (releaseEnqueued t (searchKey opts)))
                                   (searchKey opts)
                                 = perSearchCount (enqueuedPerSearch (tracker s)) (searchKey opts)
                        else enqueueLoop opts resp i [p] (s, n)
                               = (s\<lparr>tracker := t,
                                     requestQueue := r # requestQueue s,
                                     addRequestCalls := addRequestCalls s @ [r]\<rparr>, n + 1)))
           else enqueueLoop opts resp i (p # rest) (s, n) = (s, n)"
  proof (cases "canEnqueueMore (tracker s) (searchKey opts)")
    case False
    then show ?thesis using inside by (simp add: setEnqueued_def)
  next
    case True
    obtain t where t: "setEnqueued (tracker s) (searchKey opts) = (True, t)"
      using True by (simp add: setEnqueued_def)
    show ?thesis
      using True inside t setEnqueued_counts(1,2)[OF t] release_after_setEnqueued(1,2)[OF t]
      by (simp add: Let_def addRequest_def)
  qed
qed

theorem budget_counts_stay_exact_witness:
  "countsAgree (tracker (initialSession noLimits []))
   \<and> budgetExact sampleOptions (initialSession noLimits [], 0)
       (enqueueLoop sampleOptions (searchResponse 1 DNull) (- 1)
          [samplePlace ''a'', samplePlace ''a'', samplePlace ''b''] (initialSession noLimits [], 0))
   \<and> snd (enqueueLoop sampleOptions (searchResponse 1 DNull) (- 1)
          [samplePlace ''a'', samplePlace ''a'', samplePlace ''b''] (initialSession noLimits [], 0)) = 2
   \<and> tracker (fst (enqueueLoop sampleOptions (searchResponse 1 DNull) (- 1)
          [samplePlace ''a'', samplePlace ''a'', samplePlace ''b''] (initialSession noLimits [], 0)))
      = \<lparr>enqueuedTotal = 2, enqueuedPerSearch = [(''cafe'', 2)], perSessionLimit = None,
         globalLimit = None\<rparr>
   \<and> length (addRequestCalls (fst (enqueueLoop sampleOptions (searchResponse 1 DNull) (- 1)
          [samplePlace ''a'', samplePlace ''a'', samplePlace ''b''] (initialSession noLimits [], 0)))) = 3"
proof -
  have h: "countsAgree (tracker (initialSession noLimits []))" by code_simp
  have a: "snd (enqueueLoop sampleOptions (searchResponse 1 DNull) (- 1)
          [samplePlace ''a'', samplePlace ''a'', samplePlace ''b''] (initialSession noLimits [], 0)) = 2"
    by code_simp
  have b: "tracker (fst (enqueueLoop sampleOptions (searchResponse 1 DNull) (- 1)
          [samplePlace ''a'', samplePlace ''a'', samplePlace ''b''] (initialSession noLimits [], 0)))
      = \<lparr>enqueuedTotal = 2, enqueuedPerSearch = [(''cafe'', 2)], perSessionLimit = None,
         globalLimit = None\<rparr>" by code_simp
  have c: "length (addRequestCalls (fst (enqueueLoop sampleOptions (searchResponse 1 DNull) (- 1)
          [samplePlace ''a'', samplePlace ''a'', samplePlace ''b''] (initialSession noLimits [], 0)))) = 3"
    by code_simp
  from budget_counts_stay_exact[OF h, of sampleOptions 0 "searchResponse 1 DNull" "- 1"
      "[samplePlace ''a'', samplePlace ''a'', samplePlace ''b'']" "samplePlace ''a''" "[]"]
  have d: "budgetExact sampleOptions (initialSession noLimits [], 0)
       (enqueueLoop sampleOptions (searchResponse 1 DNull) (- 1)
          [samplePlace ''a'', samplePlace ''a'', samplePlace ''b''] (initialSession noLimits [], 0))"
    by (rule conjunct1)
  show ?thesis using h a b c d by (intro conjI) (simp_all only:)
qed

section \<open>Advertisements, structural search and deduplication\<close>

lemma parse_search_via_payload:
  "parseSearchPlacesResponseBody JSON_parse fixFloatNumber body False =
     (case searchPayload JSON_parse body of
        Inl e \<Rightarrow> \<lparr>placesPaginationData = [], error = Some e\<rparr>
      | Inr v \<Rightarrow> searchPlaces fixFloatNumber v)"
  by (simp add: parseSearchPlacesResponseBody_def searchPayload_def Let_def split: sum.splits)

lemma parseJsonResult_total:
  assumes "\<forall>x. \<exists>y. fixFloatNumber x = Inr y"
  shows "\<exists>r. parseJsonResult fixFloatNumber v isAdv = Inr r"
proof -
  obtain la where la: "fixFloatNumber (getIndex (getIndex v 9) 2) = Inr la" using assms by blast
  obtain lo where lo: "fixFloatNumber (getIndex (getIndex v 9) 3) = Inr lo" using assms by blast
  show ?thesis using la lo by (simp add: parseJsonResult_def fixedCoords_def Let_def)
qed

lemma parseJsonResult_isAdvertisement:
  "parseJsonResult fixFloatNumber v isAdv = Inr (Some pd) \<Longrightarrow> isAdvertisement pd = isAdv"
  by (auto simp: parseJsonResult_def Let_def split: if_splits sum.splits)

lemma keyOf_primitive: "isPrimitive v \<Longrightarrow> keyOf path v = ByValue v"
  by (cases v) simp_all

lemma keepFirstById_filter_subset:
  "set (keepFirstById xs) \<subseteq> set xs"
  by (induction xs rule: keepFirstById.induct) auto

lemma keepFirstById_ids: "placeId ` set (keepFirstById xs) = placeId ` set xs"
proof (induction xs rule: keepFirstById.induct)
  case 1
  then show ?case by simp
next
  case (2 p ps)
  have "placeId ` set (filter (\<lambda>q. placeId q \<noteq> placeId p) ps) \<union> {placeId p}
          = placeId ` set ps \<union> {placeId p}" by auto
  then show ?case using 2 by auto
qed

lemma keepFirstById_distinct: "distinct (map placeId (keepFirstById xs))"
proof (induction xs rule: keepFirstById.induct)
  case 1
  then show ?case by simp
next
  case (2 p ps)
  have "placeId p \<notin> placeId ` set (keepFirstById (filter (\<lambda>q. placeId q \<noteq> placeId p) ps))"
    using keepFirstById_filter_subset[of "filter (\<lambda>q. placeId q \<noteq> placeId p) ps"] by auto
  then show ?case using 2 by simp
qed

lemma keepFirstById_subseq: "subseq (keepFirstById xs) xs"
proof (induction xs rule: keepFirstById.induct)
  case 1
  then show ?case by simp
next
  case (2 p ps)
  have "subseq (filter (\<lambda>q. placeId q \<noteq> placeId p) ps) ps" by simp
  then show ?case using 2 subseq_order.order_trans by (auto simp del: subseq_filter_left)
qed

lemma distinct_count_one:
  "distinct (map f xs) \<Longrightarrow> x \<in> set xs \<Longrightarrow> length (filter (\<lambda>y. f y = f x) xs) = 1"
proof (induction xs)
  case Nil
  then show ?case by simp
next
  case (Cons a xs)
  show ?case
  proof (cases "f a = f x")
    case True
    then have "\<forall>y\<in>set xs. f y \<noteq> f x" using Cons.prems(1) by (metis distinct.simps(2) image_eqI list.simps(9) set_map)
    then have "filter (\<lambda>y. f y = f x) xs = []" by (simp add: filter_empty_conv)
    then show ?thesis using True by simp
  next
    case False
    then have "x \<in> set xs" using Cons.prems(2) by auto
    then show ?thesis using Cons False by simp
  qed
qed

lemma extractFound_keepFirst:
  assumes "\<forall>x. \<exists>y. fixFloatNumber x = Inr y"
    and "\<forall>pd\<in>set (foundPlaces fixFloatNumber fs). isPrimitive (placeId pd)"
  shows "extractFound fixFloatNumber fs seen acc
           = (acc @ keepFirstById
                      (filter (\<lambda>pd. ByValue (placeId pd) \<notin> seen) (foundPlaces fixFloatNumber fs)),
              None)"
  using assms(2)
proof (induction fs arbitrary: seen acc)
  case Nil
  then show ?case by simp
next
  case (Cons f fs)
  obtain path node where f: "f = (path, node)" by (cases f)
  obtain r where r: "parseJsonResult fixFloatNumber node False = Inr r"
    using parseJsonResult_total[OF assms(1)] by blast
  show ?case
  proof (cases r)
    case None
    then show ?thesis using Cons f r by simp
  next
    case (Some pd)
    show ?thesis
    proof (cases "truthy (placeId pd)")
      case False
      then show ?thesis using Cons f r Some by simp
    next
      case True
      have prim: "isPrimitive (placeId pd)" using Cons.prems f r Some True by simp
      have rest: "\<forall>pd\<in>set (foundPlaces fixFloatNumber fs). isPrimitive (placeId pd)"
        using Cons.prems f r Some True by simp
      have k: "keyOf (path @ [78]) (placeId pd) = ByValue (placeId pd)"
        using prim by (rule keyOf_primitive)
      show ?thesis
      proof (cases "ByValue (placeId pd) \<in> seen")
        case in_seen: True
        then show ?thesis using Cons.IH[OF rest] f r Some True k by simp
      next
        case new: False
        have "filter (\<lambda>q. placeId q \<noteq> placeId pd)
                (filter (\<lambda>q. ByValue (placeId q) \<notin> seen) (foundPlaces fixFloatNumber fs))
              = filter (\<lambda>q. ByValue (placeId q) \<notin> insert (ByValue (placeId pd)) seen)
                  (foundPlaces fixFloatNumber fs)"
          by (auto intro: filter_cong)
        then show ?thesis
          using Cons.IH[OF rest, of "insert (ByValue (placeId pd)) seen" "acc @ [pd]"]
            f r Some True k new by simp
      qed
    qed
  qed
qed

lemma searchPlaces_structure:
  assumes "adsOf v = Inr ads" "isArray ads"
    and "pushAds fixFloatNumber (elements ads) [] = (adRecs, None)"
    and "\<forall>x. \<exists>y. fixFloatNumber x = Inr y"
    and "\<forall>pd\<in>set (foundPlaces fixFloatNumber (collectPlacesRecursively [] v 0 6)).
           isPrimitive (placeId pd)"
  shows "searchPlaces fixFloatNumber v
           = \<lparr>placesPaginationData =
                adRecs @ keepFirstById
                           (foundPlaces fixFloatNumber (collectPlacesRecursively [] v 0 6)),
              error = None\<rparr>"
proof -
  let ?fs = "collectPlacesRecursively [] v 0 6"
  have "extractFound fixFloatNumber ?fs {} adRecs
          = (adRecs @ keepFirstById (foundPlaces fixFloatNumber ?fs), None)"
    using extractFound_keepFirst[OF assms(4,5), of "{}" adRecs] by simp
  then show ?thesis using assms(1,2,3)
    by (cases "?fs = []") (simp_all add: searchPlaces_def finish_def Let_def)
qed

lemma pushAds_advertisements:
  "pushAds fixFloatNumber ads acc = (recs, e) \<Longrightarrow> \<forall>r\<in>set acc. isAdvertisement r \<Longrightarrow>
   \<forall>r\<in>set recs. isAdvertisement r"
proof (induction ads arbitrary: acc)
  case Nil
  then show ?case by simp
next
  case (Cons ad ads)
  show ?case
  proof (cases "index ad 15")
    case (Inl x)
    then show ?thesis using Cons.prems by simp
  next
    case (Inr placeData)
    show ?thesis
    proof (cases "parseJsonResult fixFloatNumber placeData True")
      case (Inl x)
      then show ?thesis using Cons.prems Inr by simp
    next
      case r: (Inr res)
      show ?thesis
      proof (cases res)
        case None
        then show ?thesis using Cons Inr r by simp
      next
        case (Some pd)
        have "isAdvertisement pd" using parseJsonResult_isAdvertisement r Some by blast
        then have "\<forall>r\<in>set (acc @ [pd]). isAdvertisement r" using Cons.prems(2) by simp
        then show ?thesis using Cons.IH[of "acc @ [pd]"] Cons.prems(1) Inr r Some by simp
      qed
    qed
  qed
qed

lemma foundPlaces_organic: "\<forall>r\<in>set (foundPlaces fixFloatNumber fs). \<not> isAdvertisement r"
proof (induction fs)
  case Nil
  then show ?case by simp
next
  case (Cons f fs)
  obtain path node where f: "f = (path, node)" by (cases f)
  show ?case using Cons f
    by (auto split: sum.splits option.splits dest: parseJsonResult_isAdvertisement)
qed

section \<open>Deduplication within one decode\<close>

lemma searchPayload_searchBody:
  "plainDoc (DArr ds) \<Longrightarrow> searchPayload readJson (searchBody (DArr ds)) = Inr (JArr (map docTree ds))"
  using readJson_doc[of "DArr ds"]
  by (simp add: searchPayload_def clean_searchBody looksLikeHtml_def parseAttempts_def
      locateData_def propD_def)

text \<open>
  C5. Take a search body whose payload is \<open>v\<close>, with well-formed advertisement entries,
  a \<open>fixFloatNumber\<close> that does not throw, and ids that are primitive values (strings).
  Then decoding reports no error and returns the advertisement records followed by the
  records of the arrays the structural search found, deduplicated by id: each id once,
  at the place of its first occurrence, the later records of the id dropped.
\<close>

theorem structural_search_deduplicates:
  assumes "searchPayload JSON_parse body = Inr v"
    and "adsOf v = Inr ads" "isArray ads"
    and "pushAds fixFloatNumber (elements ads) [] = (adRecs, None)"
    and "\<forall>x. \<exists>y. fixFloatNumber x = Inr y"
    and "\<forall>pd\<in>set (foundPlaces fixFloatNumber (collectPlacesRecursively [] v 0 6)).
           isPrimitive (placeId pd)"
  shows "parseSearchPlacesResponseBody JSON_parse fixFloatNumber body False
           = \<lparr>placesPaginationData =
                adRecs @ keepFirstById
                           (foundPlaces fixFloatNumber (collectPlacesRecursively [] v 0 6)),
              error = None\<rparr>
     \<and> distinct (map placeId
          (keepFirstById (foundPlaces fixFloatNumber (collectPlacesRecursively [] v 0 6))))
     \<and> placeId ` set (keepFirstById
                        (foundPlaces fixFloatNumber (collectPlacesRecursively [] v 0 6)))
         = placeId ` set (foundPlaces fixFloatNumber (collectPlacesRecursively [] v 0 6))
     \<and> subseq (keepFirstById (foundPlaces fixFloatNumber (collectPlacesRecursively [] v 0 6)))
         (foundPlaces fixFloatNumber (collectPlacesRecursively [] v 0 6))"
  using assms(1) searchPlaces_structure[OF assms(2-6)]
    keepFirstById_distinct keepFirstById_ids keepFirstById_subseq
  by (simp add: parse_search_via_payload)

lemma twiceTheSame_found:
  "foundPlaces Inr (collectPlacesRecursively [] (docTree twiceTheSame) 0 6)
     = [samplePlace ''a'', samplePlace ''a'', samplePlace ''a'', samplePlace ''b'', samplePlace ''b'']"
  by code_simp

theorem structural_search_deduplicates_witness:
  "searchPayload readJson (searchBody twiceTheSame) = Inr (docTree twiceTheSame)
   \<and> adsOf (docTree twiceTheSame) = Inr (JArr [])
   \<and> pushAds Inr (elements (JArr [])) [] = ([], None)
   \<and> foundPlaces Inr (collectPlacesRecursively [] (docTree twiceTheSame) 0 6)
       = [samplePlace ''a'', samplePlace ''a'', samplePlace ''a'', samplePlace ''b'', samplePlace ''b'']
   \<and> parseSearchPlacesResponseBody readJson Inr (searchBody twiceTheSame) False
       = \<lparr>placesPaginationData = [samplePlace ''a'', samplePlace ''b''], error = None\<rparr>"
proof -
  have p: "plainDoc twiceTheSame" by code_simp
  have a: "searchPayload readJson (searchBody twiceTheSame) = Inr (docTree twiceTheSame)"
    using searchPayload_searchBody[of "[wrapped ''a'', DPlace ''a'', wrapped ''b'']"] p
    by (simp add: twiceTheSame_def)
  have b: "adsOf (docTree twiceTheSame) = Inr (JArr [])" by code_simp
  have c: "pushAds Inr (elements (JArr [])) [] = ([], None)" by simp
  have d: "\<forall>x. \<exists>y. (Inr :: fixer) x = Inr y" by simp
  have e: "\<forall>pd\<in>set (foundPlaces Inr (collectPlacesRecursively [] (docTree twiceTheSame) 0 6)).
             isPrimitive (placeId pd)"
    by (simp add: twiceTheSame_found samplePlace_def)
  have k: "keepFirstById [samplePlace ''a'', samplePlace ''a'', samplePlace ''a'',
                          samplePlace ''b'', samplePlace ''b'']
             = [samplePlace ''a'', samplePlace ''b'']" by code_simp
  have i: "isArray (JArr [])" by simp
  from structural_search_deduplicates[OF a b i c d e]
  have "parseSearchPlacesResponseBody readJson Inr (searchBody twiceTheSame) False
       = \<lparr>placesPaginationData =
            [] @ keepFirstById
                   (foundPlaces Inr (collectPlacesRecursively [] (docTree twiceTheSame) 0 6)),
          error = None\<rparr>"
    by (rule conjunct1)
  then have "parseSearchPlacesResponseBody readJson Inr (searchBody twiceTheSame) False
       = \<lparr>placesPaginationData = [samplePlace ''a'', samplePlace ''b''], error = None\<rparr>"
    by (simp only: twiceTheSame_found k append_Nil)
  then show ?thesis using a b c twiceTheSame_found by (intro conjI) (simp_all only:)
qed

text \<open>
  C10. Under the same conditions, the records of the advertisement entries are not part
  of the deduplication: they come first, all of them, each marked as an advertisement,
  and an id that an advertisement record and a found array share appears once more
  after them, in exactly one record that is not an advertisement.
\<close>

theorem advertisements_are_not_deduplicated:
  assumes "searchPayload JSON_parse body = Inr v"
    and "adsOf v = Inr ads" "isArray ads"
    and "pushAds fixFloatNumber (elements ads) [] = (adRecs, None)"
    and "\<forall>x. \<exists>y. fixFloatNumber x = Inr y"
    and "\<forall>pd\<in>set (foundPlaces fixFloatNumber (collectPlacesRecursively [] v 0 6)).
           isPrimitive (placeId pd)"
    and "a \<in> set adRecs"
    and "c \<in> set (foundPlaces fixFloatNumber (collectPlacesRecursively [] v 0 6))"
    and "placeId c = placeId a"
  shows "parseSearchPlacesResponseBody JSON_parse fixFloatNumber body False
           = \<lparr>placesPaginationData =
                adRecs @ keepFirstById
                           (foundPlaces fixFloatNumber (collectPlacesRecursively [] v 0 6)),
              error = None\<rparr>
     \<and> (\<forall>r\<in>set adRecs. isAdvertisement r)
     \<and> (\<forall>r\<in>set (keepFirstById
                     (foundPlaces fixFloatNumber (collectPlacesRecursively [] v 0 6))).
           \<not> isAdvertisement r)
     \<and> length (filter (\<lambda>r. placeId r = placeId a)
          (keepFirstById (foundPlaces fixFloatNumber (collectPlacesRecursively [] v 0 6)))) = 1
     \<and> length (filter (\<lambda>r. placeId r = placeId a)
          (placesPaginationData
             (parseSearchPlacesResponseBody JSON_parse fixFloatNumber body False)))
         = length (filter (\<lambda>r. placeId r = placeId a) adRecs) + 1"
proof -
  let ?cands = "foundPlaces fixFloatNumber (collectPlacesRecursively [] v 0 6)"
  have res: "parseSearchPlacesResponseBody JSON_parse fixFloatNumber body False
           = \<lparr>placesPaginationData = adRecs @ keepFirstById ?cands, error = None\<rparr>"
    using assms(1) searchPlaces_structure[OF assms(2-6)] by (simp add: parse_search_via_payload)
  have ads: "\<forall>r\<in>set adRecs. isAdvertisement r"
    using pushAds_advertisements[OF assms(4)] by simp
  have org: "\<forall>r\<in>set (keepFirstById ?cands). \<not> isAdvertisement r"
    using foundPlaces_organic keepFirstById_filter_subset by blast
  have "placeId c \<in> placeId ` set (keepFirstById ?cands)"
    using assms(8) keepFirstById_ids by blast
  then obtain c' where c': "c' \<in> set (keepFirstById ?cands)" "placeId c' = placeId a"
    using assms(9) by auto
  have one: "length (filter (\<lambda>r. placeId r = placeId a) (keepFirstById ?cands)) = 1"
    using distinct_count_one[OF keepFirstById_distinct c'(1)] c'(2) by simp
  show ?thesis using res ads org one by simp
qed

lemma withAdvertisement_ads:
  "adsOf (docTree withAdvertisement) = Inr (JArr [docTree (adEntry ''a'')])"
  by code_simp

lemma withAdvertisement_pushAds:
  "pushAds Inr (elements (JArr [docTree (adEntry ''a'')])) []
     = ([(samplePlace ''a'')\<lparr>isAdvertisement := True\<rparr>], None)"
  by code_simp

lemma withAdvertisement_found:
  "foundPlaces Inr (collectPlacesRecursively [] (docTree withAdvertisement) 0 6)
     = [samplePlace ''a'', samplePlace ''a'', samplePlace ''a'']"
  by code_simp

theorem advertisements_are_not_deduplicated_witness:
  "searchPayload readJson (searchBody withAdvertisement) = Inr (docTree withAdvertisement)
   \<and> adsOf (docTree withAdvertisement) = Inr (JArr [docTree (adEntry ''a'')])
   \<and> pushAds Inr (elements (JArr [docTree (adEntry ''a'')])) []
       = ([(samplePlace ''a'')\<lparr>isAdvertisement := True\<rparr>], None)
   \<and> foundPlaces Inr (collectPlacesRecursively [] (docTree withAdvertisement) 0 6)
       = [samplePlace ''a'', samplePlace ''a'', samplePlace ''a'']
   \<and> parseSearchPlacesResponseBody readJson Inr (searchBody withAdvertisement) False
       = \<lparr>placesPaginationData =
            [(samplePlace ''a'')\<lparr>isAdvertisement := True\<rparr>, samplePlace ''a''],
          error = None\<rparr>"
proof -
  have p: "plainDoc withAdvertisement" by code_simp
  have a: "searchPayload readJson (searchBody withAdvertisement) = Inr (docTree withAdvertisement)"
    using searchPayload_searchBody
            [of "[DArr [wrapped ''a''], DNull, DArr [DNull, DArr [DArr [adEntry ''a'']]]]"] p
    by (simp add: withAdvertisement_def)
  have d: "\<forall>x. \<exists>y. (Inr :: fixer) x = Inr y" by simp
  have e: "\<forall>pd\<in>set (foundPlaces Inr (collectPlacesRecursively [] (docTree withAdvertisement) 0 6)).
             isPrimitive (placeId pd)"
    by (simp add: withAdvertisement_found samplePlace_def)
  have k: "keepFirstById [samplePlace ''a'', samplePlace ''a'', samplePlace ''a'']
             = [samplePlace ''a'']" by code_simp
  have m1: "(samplePlace ''a'')\<lparr>isAdvertisement := True\<rparr>
              \<in> set [(samplePlace ''a'')\<lparr>isAdvertisement := True\<rparr>]" by simp
  have m2: "samplePlace ''a''
              \<in> set (foundPlaces Inr (collectPlacesRecursively [] (docTree withAdvertisement) 0 6))"
    by (simp add: withAdvertisement_found)
  have m3: "placeId (samplePlace ''a'') = placeId ((samplePlace ''a'')\<lparr>isAdvertisement := True\<rparr>)"
    by simp
  have i: "isArray (JArr [docTree (adEntry ''a'')])" by simp
  from advertisements_are_not_deduplicated
         [OF a withAdvertisement_ads i withAdvertisement_pushAds d e m1 m2 m3]
  have "parseSearchPlacesResponseBody readJson Inr (searchBody withAdvertisement) False
       = \<lparr>placesPaginationData =
            [(samplePlace ''a'')\<lparr>isAdvertisement := True\<rparr>]
            @ keepFirstById
                (foundPlaces Inr (collectPlacesRecursively [] (docTree withAdvertisement) 0 6)),
          error = None\<rparr>"
    by (rule conjunct1)
  then have "parseSearchPlacesResponseBody readJson Inr (searchBody withAdvertisement) False
       = \<lparr>placesPaginationData =
            [(samplePlace ''a'')\<lparr>isAdvertisement := True\<rparr>, samplePlace ''a''],
          error = None\<rparr>"
    by (simp only: withAdvertisement_found k append.simps)
  then show ?thesis
    using a withAdvertisement_ads withAdvertisement_pushAds withAdvertisement_found
    by (intro conjI) (simp_all only:)
qed

section \<open>Payloads without candidates\<close>

lemma readJson_null: "readJson ''null'' = Some JNull"
  by code_simp

text \<open>
  A payload that parses, holds no candidate and still ends in an error: the body
  \<open>null\<close> parses, the structural search finds nothing in it, and both kinds of decode
  end in the error "Failed parsing JSON response"; so does a payload whose advertisement
  list holds \<open>null\<close>.
\<close>

theorem null_payload_counterexample:
  "readJson (cleanGoogleResponse ''null'') = Some JNull
   \<and> collectPlacesRecursively [] JNull 0 6 = []
   \<and> parseSearchPlacesResponseBody readJson Inr ''null'' False
       = \<lparr>placesPaginationData = [], error = Some (FailedParsingJson TypeError)\<rparr>
   \<and> parseSearchPlacesResponseBody readJson Inr ''null'' True
       = \<lparr>placesPaginationData = [], error = Some (FailedParsingJson TypeError)\<rparr>
   \<and> readJson (cleanGoogleResponse ''[0,0,[0,[[null]]]]'')
       = Some (JArr [JNum 0, JNum 0, JArr [JNum 0, JArr [JArr [JNull]]]])
   \<and> collectPlacesRecursively []
         (JArr [JNum 0, JNum 0, JArr [JNum 0, JArr [JArr [JNull]]]]) 0 6 = []
   \<and> parseSearchPlacesResponseBody readJson Inr ''[0,0,[0,[[null]]]]'' False
       = \<lparr>placesPaginationData = [], error = Some (FailedParsingJson TypeError)\<rparr>"
  by code_simp

lemma parse_via_attempts:
  assumes "cleanGoogleResponse body \<noteq> []" "\<not> looksLikeHtml (cleanGoogleResponse body)"
    and "parseAttempts JSON_parse (cleanGoogleResponse body) = Inr jo"
  shows "parseSearchPlacesResponseBody JSON_parse fixFloatNumber body True
           = detailPreviewPlaces fixFloatNumber jo"
    and "parseSearchPlacesResponseBody JSON_parse fixFloatNumber body False
           = (case locateData JSON_parse jo of
                Inl e \<Rightarrow> \<lparr>placesPaginationData = [], error = Some e\<rparr>
              | Inr v \<Rightarrow> searchPlaces fixFloatNumber v)"
  using assms by (simp_all add: parseSearchPlacesResponseBody_def)

lemma nullish_cases: "nullish v \<Longrightarrow> v = JUndefined \<or> v = JNull"
  by (cases v) simp_all

text \<open>
  C7, amended. Let the cleaned body be neither empty nor HTML and let the parse attempts
  give the tree \<open>jo\<close>. A detail preview whose tree is not \<open>null\<close> and has no truthy value at
  position 6 decodes to no record and no error. A search response whose payload \<open>v\<close> has
  advertisement entries that convert without an exception (none at all in the plain
  case) and in which the structural search finds nothing decodes to the advertisement
  records alone and no error. A tree that is \<open>null\<close> gives a hard error for both kinds,
  although it parsed.
\<close>

theorem no_candidates_is_empty_success:
  assumes "cleanGoogleResponse body \<noteq> []" "\<not> looksLikeHtml (cleanGoogleResponse body)"
    and "parseAttempts JSON_parse (cleanGoogleResponse body) = Inr jo"
  shows "(\<not> nullish jo \<and> \<not> truthy (getIndex jo 6) \<longrightarrow>
            parseSearchPlacesResponseBody JSON_parse fixFloatNumber body True
              = \<lparr>placesPaginationData = [], error = None\<rparr>)
     \<and> (locateData JSON_parse jo = Inr v \<and> adsOf v = Inr ads \<and> isArray ads
          \<and> pushAds fixFloatNumber (elements ads) [] = (adRecs, None)
          \<and> collectPlacesRecursively [] v 0 6 = [] \<longrightarrow>
            parseSearchPlacesResponseBody JSON_parse fixFloatNumber body False
              = \<lparr>placesPaginationData = adRecs, error = None\<rparr>)
     \<and> (nullish jo \<longrightarrow>
            parseSearchPlacesResponseBody JSON_parse fixFloatNumber body True
              = \<lparr>placesPaginationData = [], error = Some (FailedParsingJson TypeError)\<rparr>
          \<and> parseSearchPlacesResponseBody JSON_parse fixFloatNumber body False
              = \<lparr>placesPaginationData = [], error = Some (FailedParsingJson TypeError)\<rparr>)"
proof (intro conjI impI)
  assume "\<not> nullish jo \<and> \<not> truthy (getIndex jo 6)"
  then show "parseSearchPlacesResponseBody JSON_parse fixFloatNumber body True
              = \<lparr>placesPaginationData = [], error = None\<rparr>"
    by (simp add: parse_via_attempts(1)[OF assms] detailPreviewPlaces_def index_def
        parseJsonResult_def finish_def)
next
  assume "locateData JSON_parse jo = Inr v \<and> adsOf v = Inr ads \<and> isArray ads
          \<and> pushAds fixFloatNumber (elements ads) [] = (adRecs, None)
          \<and> collectPlacesRecursively [] v 0 6 = []"
  then show "parseSearchPlacesResponseBody JSON_parse fixFloatNumber body False
              = \<lparr>placesPaginationData = adRecs, error = None\<rparr>"
    by (simp add: parse_via_attempts(2)[OF assms] searchPlaces_def finish_def)
next
  assume n: "nullish jo"
  show "parseSearchPlacesResponseBody JSON_parse fixFloatNumber body True
              = \<lparr>placesPaginationData = [], error = Some (FailedParsingJson TypeError)\<rparr>"
    using n by (simp add: parse_via_attempts(1)[OF assms] detailPreviewPlaces_def index_def
        finish_def)
  show "parseSearchPlacesResponseBody JSON_parse fixFloatNumber body False
              = \<lparr>placesPaginationData = [], error = Some (FailedParsingJson TypeError)\<rparr>"
    using n by (simp add: parse_via_attempts(2)[OF assms] locateData_def propD_def)
qed

lemma metadataFrame_clean:
  "cleanGoogleResponse metadataFrame = ''[[[2],[3],[5],[6],[7],[9],[10]]]''"
  by code_simp

lemma metadataFrame_parsed:
  "readJson ''[[[2],[3],[5],[6],[7],[9],[10]]]''
     = Some (JArr [JArr [JArr [JNum 2], JArr [JNum 3], JArr [JNum 5], JArr [JNum 6],
                         JArr [JNum 7], JArr [JNum 9], JArr [JNum 10]]])"
  by code_simp

theorem no_candidates_is_empty_success_witness:
  "cleanGoogleResponse metadataFrame \<noteq> []
   \<and> \<not> looksLikeHtml (cleanGoogleResponse metadataFrame)
   \<and> parseAttempts readJson (cleanGoogleResponse metadataFrame)
       = Inr (JArr [JArr [JArr [JNum 2], JArr [JNum 3], JArr [JNum 5], JArr [JNum 6],
                          JArr [JNum 7], JArr [JNum 9], JArr [JNum 10]]])
   \<and> parseSearchPlacesResponseBody readJson Inr metadataFrame False
       = \<lparr>placesPaginationData = [], error = None\<rparr>
   \<and> parseSearchPlacesResponseBody readJson Inr metadataFrame True
       = \<lparr>placesPaginationData = [], error = None\<rparr>"
proof -
  let ?t = "JArr [JArr [JArr [JNum 2], JArr [JNum 3], JArr [JNum 5], JArr [JNum 6],
                        JArr [JNum 7], JArr [JNum 9], JArr [JNum 10]]]"
  have a: "cleanGoogleResponse metadataFrame \<noteq> []" by (simp add: metadataFrame_clean)
  have b: "\<not> looksLikeHtml (cleanGoogleResponse metadataFrame)"
    by (simp add: metadataFrame_clean looksLikeHtml_def)
  have c: "parseAttempts readJson (cleanGoogleResponse metadataFrame) = Inr ?t"
    by (simp add: metadataFrame_clean parseAttempts_def metadataFrame_parsed)
  have d: "\<not> nullish ?t \<and> \<not> truthy (getIndex ?t 6)" by simp
  have e: "locateData readJson ?t = Inr ?t \<and> adsOf ?t = Inr (JArr []) \<and> isArray (JArr [])
          \<and> pushAds Inr (elements (JArr [])) [] = ([], None)
          \<and> collectPlacesRecursively [] ?t 0 6 = []"
    by code_simp
  from no_candidates_is_empty_success[OF a b c, of Inr ?t "JArr []" "[]"] d e
  have f: "parseSearchPlacesResponseBody readJson Inr metadataFrame True
              = \<lparr>placesPaginationData = [], error = None\<rparr>"
       "parseSearchPlacesResponseBody readJson Inr metadataFrame False
              = \<lparr>placesPaginationData = [], error = None\<rparr>"
    by blast+
  show ?thesis by (intro conjI) (rule a, rule b, rule c, rule f(2), rule f(1))
qed

section \<open>The two-layer wrapper\<close>

lemma readString_escaped:
  "\<forall>c\<in>set s. escapable c \<Longrightarrow>
   readString (concat (map escapeChar s) @ CHR 0x22 # r) acc = Some (acc @ s, r)"
proof (induction s arbitrary: acc)
  case Nil
  then show ?case by simp
next
  case (Cons c s)
  have rest: "readString (concat (map escapeChar s) @ CHR 0x22 # r) (acc @ [c])
                = Some ((acc @ [c]) @ s, r)"
    using Cons by simp
  consider "c = CHR 0x22" | "c = CHR 0x5C" | "c = CHR 0x0A"
    | "c \<noteq> CHR 0x22" "c \<noteq> CHR 0x5C" "c \<noteq> CHR 0x0A" by blast
  then show ?case
  proof cases
    case 1
    have "escapeChar c = [CHR 0x5C, CHR 0x22]" using 1 by (simp add: escapeChar_def)
    then show ?thesis using rest 1 by simp
  next
    case 2
    have "escapeChar c = [CHR 0x5C, CHR 0x5C]" using 2 by (simp add: escapeChar_def)
    then show ?thesis using rest 2 by simp
  next
    case 3
    have "escapeChar c = [CHR 0x5C, CHR ''n'']" using 3 by (simp add: escapeChar_def)
    then show ?thesis using rest 3 by simp
  next
    case 4
    have "escapeChar c = [c]" using 4 by (simp add: escapeChar_def)
    moreover have "(32::nat) \<le> of_char c" using 4 Cons.prems by (simp add: escapable_def)
    ultimately show ?thesis using rest 4 by simp
  qed
qed

lemma readJson_wrapperBody:
  assumes "\<forall>c\<in>set inner. escapable c"
  shows "readJson (wrapperBody inner) = Some (JObj [(''c'', JNum 0), (''d'', JStr inner)])"
proof -
  have s: "readString (concat (map escapeChar inner) @ CHR 0x22 # ''}'') []
             = Some ([] @ inner, ''}'')"
    using assms by (rule readString_escaped)
  show ?thesis
    using s
    by (simp add: readJson_def wrapperBody_def quoted_def jsonString_def isJsonSpace_def
        readNumber_def isDigit_def digitVal_def Let_def)
qed

lemma clean_wrapperBody: "cleanGoogleResponse (wrapperBody inner) = wrapperBody inner"
proof -
  let ?s = "wrapperBody inner"
  have l: "?s \<noteq> []" "last ?s = CHR ''}''" "hd ?s = CHR ''{''"
    by (simp_all add: wrapperBody_def)
  have t: "trimEnd ?s = ?s" using trimEnd_id[OF l(1)] l(2) by (simp add: isSpace_def)
  have "dropWhile isSpace ?s = ?s" by (simp add: wrapperBody_def isSpace_def)
  then have "trim ?s = ?s" using t by (simp add: trim_def)
  moreover have "\<not> suffix trailingComment ?s"
    using l(1,2) by (cases ?s rule: rev_cases) (auto simp: suffix_def trailingComment_def)
  then have "stripTrailingComment ?s = ?s" using t by (simp add: stripTrailingComment_def)
  moreover have "stripGuard ?s = ?s" by (simp add: stripGuard_def wrapperBody_def xssiGuard_def)
  ultimately show ?thesis by (simp add: cleanGoogleResponse_def)
qed

lemma wrapperBody_not_html: "\<not> looksLikeHtml (wrapperBody inner)" "wrapperBody inner \<noteq> []"
  by (simp_all add: looksLikeHtml_def wrapperBody_def)

lemma plainChar_escapable: "plainChar c \<Longrightarrow> escapable c"
  by (simp add: plainChar_def escapable_def)

lemma nulls_escapable: "\<forall>c\<in>set (nulls k). escapable c"
  by (induction k) (auto simp: nulls_def escapable_def)

lemma commaSeparated_chars:
  "c \<in> set (commaSeparated xs) \<Longrightarrow> c = CHR '','' \<or> (\<exists>x\<in>set xs. c \<in> set x)"
  by (induction xs rule: commaSeparated.induct) auto

lemma docText_escapable: "plainDoc d \<Longrightarrow> \<forall>c\<in>set (docText d). escapable c"
proof (induction d)
  case DNull
  then show ?case by (simp add: escapable_def)
next
  case (DPlace pid)
  have a: "\<forall>c\<in>set pid. escapable c"
    using DPlace by (auto simp: list_all_iff intro: plainChar_escapable)
  have b: "\<forall>c\<in>set ''[''. escapable c" "\<forall>c\<in>set ''[null,null,1,2],''. escapable c"
      "\<forall>c\<in>set '']''. escapable c" "escapable (CHR 0x22)"
    by (simp_all add: escapable_def)
  have "\<forall>c\<in>set (quoted pid). escapable c" using a b(4) by (simp add: quoted_def)
  then show ?case using b(1,2,3) nulls_escapable[of 9] nulls_escapable[of 68]
    by (simp only: docText.simps placeText_def set_append ball_Un simp_thms)
next
  case (DArr ds)
  have "\<forall>x\<in>set (map docText ds). \<forall>c\<in>set x. escapable c"
    using DArr by (auto simp: list_all_iff)
  moreover have comma: "escapable (CHR '','')" by (simp add: escapable_def)
  ultimately have "\<forall>c\<in>set (commaSeparated (map docText ds)). escapable c"
    using commaSeparated_chars[of _ "map docText ds"] by blast
  moreover have "escapable (CHR ''['')" "escapable (CHR '']'')" by (simp_all add: escapable_def)
  ultimately show ?case by simp
qed

lemma searchBody_escapable: "plainDoc d \<Longrightarrow> \<forall>c\<in>set (searchBody d). escapable c"
proof -
  assume "plainDoc d"
  then have "\<forall>c\<in>set (docText d). escapable c" by (rule docText_escapable)
  moreover have "\<forall>c\<in>set (xssiGuard @ [CHR 0x0A]). escapable c"
    by (simp add: xssiGuard_def escapable_def)
  ultimately show ?thesis by (simp only: searchBody_def set_append ball_Un) blast
qed

lemma readJson_rejects:
  "readJson [] = None" "looksLikeHtml s \<Longrightarrow> readJson s = None"
proof -
  show "readJson [] = None" by (simp add: readJson_def)
  assume "looksLikeHtml s"
  then obtain t where "s = CHR ''<'' # t" by (auto simp: looksLikeHtml_def prefix_def)
  then show "readJson s = None"
    by (simp add: readJson_def isJsonSpace_def readNumber_def isDigit_def Let_def)
qed

text \<open>
  C3, amended to search responses. Let the parser refuse the empty text and every text
  that begins with an HTML marker, as \<open>JSON.parse\<close> does. Let the cleaned body parse to an
  object whose field \<open>d\<close> is the string \<open>inner\<close>; let \<open>inner\<close> carry nothing around the
  document but the guard (no white space at its ends, no trailing comment), let the
  document after the guard parse to \<open>v\<close>, and let \<open>v\<close> not be a wrapper again. Then decoding
  the wrapped body as a search response gives the same result, records and error, as
  decoding \<open>inner\<close> itself.
\<close>

theorem two_layer_wrapper_same_records:
  assumes "JSON_parse [] = None" "\<forall>s. looksLikeHtml s \<longrightarrow> JSON_parse s = None"
    and "JSON_parse (cleanGoogleResponse body) = Some (JObj fs)"
    and "map_of fs ''d'' = Some (JStr inner)"
    and "stripTrailingComment (trim inner) = inner"
    and "JSON_parse (stripGuard inner) = Some v"
    and "\<not> truthy (getD v)"
  shows "parseSearchPlacesResponseBody JSON_parse fixFloatNumber body False
           = parseSearchPlacesResponseBody JSON_parse fixFloatNumber inner False"
proof -
  have ib: "stripGuard inner \<noteq> []" "\<not> looksLikeHtml (stripGuard inner)"
    using assms(1,2,6) by auto
  then have inner_ne: "inner \<noteq> []" by (auto simp: stripGuard_def)
  have ob: "cleanGoogleResponse body \<noteq> []" "\<not> looksLikeHtml (cleanGoogleResponse body)"
    using assms(1,2,3) by auto
  have ci: "cleanGoogleResponse inner = stripGuard inner"
    using assms(5) by (simp add: cleanGoogleResponse_def)
  have wrapped_side: "parseSearchPlacesResponseBody JSON_parse fixFloatNumber body False
           = searchPlaces fixFloatNumber v"
    using ob assms(3,4,6) inner_ne
    by (simp add: parseSearchPlacesResponseBody_def parseAttempts_def locateData_def propD_def
        unstringifyGoogleXrhResponse_def)
  have direct_side: "parseSearchPlacesResponseBody JSON_parse fixFloatNumber inner False
           = searchPlaces fixFloatNumber v"
  proof (cases "nullish v")
    case True
    then have "searchPlaces fixFloatNumber v
                 = \<lparr>placesPaginationData = [], error = Some (FailedParsingJson TypeError)\<rparr>"
      by (simp add: searchPlaces_def adsOf_def index_def finish_def)
    then show ?thesis using True ib ci assms(6)
      by (simp add: parseSearchPlacesResponseBody_def parseAttempts_def locateData_def propD_def)
  next
    case False
    then show ?thesis using ib ci assms(6,7)
      by (simp add: parseSearchPlacesResponseBody_def parseAttempts_def locateData_def propD_def)
  qed
  show ?thesis using wrapped_side direct_side by simp
qed

lemma searchPlaces_one:
  "searchPlaces Inr (docTree (resultPage [''a'']))
     = \<lparr>placesPaginationData = [samplePlace ''a''], error = None\<rparr>"
  by code_simp

lemma searchBody_bare: "stripTrailingComment (trim (searchBody (DArr ds))) = searchBody (DArr ds)"
proof -
  let ?s = "searchBody (DArr ds)"
  have l: "?s \<noteq> []" "last ?s = CHR '']''" by (simp_all add: searchBody_def)
  have "dropWhile isSpace ?s = ?s" by (simp add: searchBody_def xssiGuard_def isSpace_def)
  then have "trim ?s = ?s" using trimEnd_id[OF l(1)] l(2) by (simp add: trim_def isSpace_def)
  moreover have "stripTrailingComment ?s = ?s"
    using trimEnd_id[OF l(1)] l(2) no_trailingComment[OF l]
    by (simp add: stripTrailingComment_def isSpace_def)
  ultimately show ?thesis by simp
qed

lemma stripGuard_searchBody: "stripGuard (searchBody (DArr ds)) = docText (DArr ds)"
  by (simp add: stripGuard_def searchBody_def xssiGuard_def isSpace_def)

theorem two_layer_wrapper_same_records_witness:
  "readJson (cleanGoogleResponse (wrapperBody (searchBody (resultPage [''a'']))))
     = Some (JObj [(''c'', JNum 0), (''d'', JStr (searchBody (resultPage [''a''])))])
   \<and> readJson (stripGuard (searchBody (resultPage [''a'']))) = Some (docTree (resultPage [''a'']))
   \<and> parseSearchPlacesResponseBody readJson Inr
         (wrapperBody (searchBody (resultPage [''a'']))) False
       = \<lparr>placesPaginationData = [samplePlace ''a''], error = None\<rparr>
   \<and> parseSearchPlacesResponseBody readJson Inr (searchBody (resultPage [''a''])) False
       = \<lparr>placesPaginationData = [samplePlace ''a''], error = None\<rparr>"
proof -
  let ?d = "resultPage [''a'']"
  have p: "plainDoc ?d" by code_simp
  have arr: "?d = DArr [wrapped ''a'']" by (simp add: resultPage_def)
  have a: "readJson (cleanGoogleResponse (wrapperBody (searchBody ?d)))
     = Some (JObj [(''c'', JNum 0), (''d'', JStr (searchBody ?d))])"
    using readJson_wrapperBody[OF searchBody_escapable[OF p]] by (simp add: clean_wrapperBody)
  have b: "map_of [(''c'', JNum 0), (''d'', JStr (searchBody ?d))] ''d''
             = Some (JStr (searchBody ?d))" by simp
  have c: "stripTrailingComment (trim (searchBody ?d)) = searchBody ?d"
    unfolding arr by (rule searchBody_bare)
  have d: "readJson (stripGuard (searchBody ?d)) = Some (docTree ?d)"
    using readJson_doc[OF p] by (simp add: arr stripGuard_searchBody)
  have e: "\<not> truthy (getD (docTree ?d))" by (simp add: arr)
  have r: "\<forall>s. looksLikeHtml s \<longrightarrow> readJson s = None" using readJson_rejects(2) by blast
  have direct: "parseSearchPlacesResponseBody readJson Inr (searchBody ?d) False
       = \<lparr>placesPaginationData = [samplePlace ''a''], error = None\<rparr>"
    using decode_searchBody_readJson[of "[wrapped ''a'']" Inr] p searchPlaces_one
    by (simp add: arr)
  from two_layer_wrapper_same_records[OF readJson_rejects(1) r a b c d e, of Inr] direct
  have w: "parseSearchPlacesResponseBody readJson Inr (wrapperBody (searchBody ?d)) False
       = \<lparr>placesPaginationData = [samplePlace ''a''], error = None\<rparr>"
    by simp
  show ?thesis by (intro conjI) (rule a, rule d, rule w, rule direct)
qed

text \<open>
  A detail preview is never unwrapped: that branch reads position 6 of the parsed tree
  and never looks into the wrapper field, so the wrapped body gives no record where the
  inner document gives one.
\<close>

lemma preview_tree:
  "detailPreviewPlaces Inr (docTree previewDoc)
     = \<lparr>placesPaginationData = [samplePlace ''a''], error = None\<rparr>"
  by code_simp

lemma preview_wrapper_tree:
  "detailPreviewPlaces Inr (JObj [(''c'', JNum 0), (''d'', JStr (searchBody previewDoc))])
     = \<lparr>placesPaginationData = [], error = None\<rparr>"
  by code_simp

theorem detail_preview_wrapper_counterexample:
  "readJson (cleanGoogleResponse (wrapperBody (searchBody previewDoc)))
     = Some (JObj [(''c'', JNum 0), (''d'', JStr (searchBody previewDoc))])
   \<and> readJson (cleanGoogleResponse (searchBody previewDoc)) = Some (docTree previewDoc)
   \<and> parseSearchPlacesResponseBody readJson Inr (wrapperBody (searchBody previewDoc)) True
       = \<lparr>placesPaginationData = [], error = None\<rparr>
   \<and> parseSearchPlacesResponseBody readJson Inr (searchBody previewDoc) True
       = \<lparr>placesPaginationData = [samplePlace ''a''], error = None\<rparr>"
proof -
  have p: "plainDoc previewDoc" by code_simp
  have arr: "previewDoc = DArr (replicate 6 DNull @ [DPlace ''a''])" by (simp add: previewDoc_def)
  have a: "readJson (cleanGoogleResponse (wrapperBody (searchBody previewDoc)))
     = Some (JObj [(''c'', JNum 0), (''d'', JStr (searchBody previewDoc))])"
    using readJson_wrapperBody[OF searchBody_escapable[OF p]] by (simp add: clean_wrapperBody)
  have b: "readJson (cleanGoogleResponse (searchBody previewDoc)) = Some (docTree previewDoc)"
    using readJson_doc[OF p] by (simp add: arr clean_searchBody)
  have bne: "cleanGoogleResponse (searchBody previewDoc) \<noteq> []"
      "\<not> looksLikeHtml (cleanGoogleResponse (searchBody previewDoc))"
    by (simp_all add: arr clean_searchBody looksLikeHtml_def)
  have w: "parseSearchPlacesResponseBody readJson Inr (wrapperBody (searchBody previewDoc)) True
       = \<lparr>placesPaginationData = [], error = None\<rparr>"
    using a wrapperBody_not_html[of "searchBody previewDoc"] preview_wrapper_tree
    by (simp add: parseSearchPlacesResponseBody_def clean_wrapperBody parseAttempts_def)
  have d: "parseSearchPlacesResponseBody readJson Inr (searchBody previewDoc) True
       = \<lparr>placesPaginationData = [samplePlace ''a''], error = None\<rparr>"
    using b bne preview_tree
    by (simp add: parseSearchPlacesResponseBody_def parseAttempts_def)
  show ?thesis by (intro conjI) (rule a, rule b, rule w, rule d)
qed

section \<open>The stop checks, one condition at a time\<close>

lemma stopChecks_counted:
  "stopChecks opts obs s =
     (if noMoreResults obs then Finished ReachedAllResults s
      else if emptyScrollsNow s \<ge> 10 then Finished ScrollingYieldsNoMore (counted s)
      else
        (case lastError (stats s) of
           Some e \<Rightarrow> Thrown \<lparr>thrownMessage = message e, storedBody = responseBody e\<rparr> (counted s)
         | None \<Rightarrow>
             if \<not> canEnqueueMore (tracker s) (searchKey opts)
             then Finished CannotEnqueueMore (counted s)
             else if zoomedOutTooFar opts obs then Finished ZoomedOutTooFar (counted s)
             else if totalFound (stats s) \<ge> MAX_PLACES_PER_PAGE opts
             then Finished FoundMaximumPerPage (counted s)
             else if nothingNewOnStep s then Finished OnlyKnownOrOutside (counted s)
             else
               Scrolled
                 ((counted s)\<lparr>actions := actions s
                      @ [MouseMove 10 300, Delay 100, MouseWheel 800,
                         Delay (settleDelay (random obs))],
                    stats := (stats s)\<lparr>pageNum := pageNum (stats s) + 1\<rparr>\<rparr>)))"
  by (simp add: stopChecks_def counted_def emptyScrollsNow_def zoomedOutTooFar_def
      nothingNewOnStep_def Let_def split: option.splits)

lemma stopChecks_iterationOutcome: "stopChecks opts obs s = iterationOutcome opts obs s"
  by (cases "lastError (stats s)") (simp_all add: stopChecks_counted iterationOutcome_def settleDelay_def)

lemma settleDelay_range: "0 \<le> r \<Longrightarrow> r < 1 \<Longrightarrow> 2000 \<le> settleDelay r \<and> settleDelay r \<le> 3000"
proof -
  assume r: "0 \<le> r" "r < 1"
  have "0 \<le> \<lceil>1000 * r\<rceil>" using r(1) by (simp add: ceiling_le_iff le_ceiling_iff)
  moreover have "\<lceil>1000 * r\<rceil> \<le> 1000" using r(2) by (simp add: ceiling_le_iff)
  ultimately show ?thesis by (simp add: settleDelay_def)
qed

lemma handler_keeps_raw_body:
  assumes "isSearchPage resp \<or> isDetailPreviewPage resp"
    and "error (parseSearchPlacesResponseBody JSON_parse fixFloatNumber
                  (bodyText resp) (isDetailPreviewPage resp)) = Some e"
  shows "lastError (stats (enqueuePlacesFromResponse JSON_parse fixFloatNumber opts resp s))
           = Some \<lparr>message = e, responseStatus = status resp, responseBody = bodyText resp\<rparr>"
  using assms by (auto simp: enqueuePlacesFromResponse_def handleDecoded_def Let_def)


section \<open>The order of the stop conditions\<close>

lemma domEnqueueLoop_frame:
  "lastError (stats (domEnqueueLoop opts obs ds s)) = lastError (stats s)
   \<and> found (stats (domEnqueueLoop opts obs ds s)) = found (stats s)
   \<and> totalFound (stats (domEnqueueLoop opts obs ds s)) = totalFound (stats s)
   \<and> pageNum (stats (domEnqueueLoop opts obs ds s)) = pageNum (stats s)
   \<and> useDOMFallback (domEnqueueLoop opts obs ds s) = useDOMFallback s
   \<and> actions (domEnqueueLoop opts obs ds s) = actions s"
proof (induction ds arbitrary: s)
  case Nil
  then show ?case by simp
next
  case (Cons d ds)
  obtain ok t where t: "setEnqueued (tracker s) (searchKey opts) = (ok, t)" by fastforce
  obtain b q where a: "addRequest (requestQueue s)
      (domRequest opts obs (totalEnqueued (stats s)) d) = (b, q)" by fastforce
  show ?case using t a Cons.IH by (cases ok; cases b) (simp_all add: Let_def)
qed

text \<open>
  C4. An iteration of the scrolling loop begins with the fallback of lines 425 to 481:
  when the page index exceeds 2, nothing was found and the page shows links, the links
  are submitted and the session ends before any stop condition is looked at; a pending
  decode error stays stored and is not thrown. In every other iteration the outcome is
  that of the seven stop conditions taken in this order: the end-of-results signal, ten
  empty scrolls, a pending decode error (thrown, with the stored body), the budget, the
  zoom drift beyond \<open>maxAutomaticZoomOut\<close>, \<open>totalFound\<close> at or above the cap of the page,
  the heuristic of the step without anything new. The first that holds ends the
  iteration; when none holds the loop moves the mouse, scrolls, increments the page index
  and waits \<open>2000 + ceil(1000 * random)\<close> milliseconds, between 2 and 3 seconds for
  \<open>random\<close> in [0, 1). The pending error is the one the handler stored: the message of the
  decoder with the status and the raw body of the response.
\<close>

theorem stop_conditions_in_order:
  "scrollIteration opts obs s
     = (if pageNum (stats s) > 2 \<and> totalFound (stats s) = 0 \<and> domPlaces obs \<noteq> []
        then Finished DomFallbackEnqueued
               (domEnqueueLoop opts obs (domPlaces obs) (s\<lparr>useDOMFallback := True\<rparr>))
        else iterationOutcome opts obs (s\<lparr>useDOMFallback := fallbackFlag s\<rparr>))
   \<and> lastError (stats (domEnqueueLoop opts obs (domPlaces obs) (s\<lparr>useDOMFallback := True\<rparr>)))
       = lastError (stats s)
   \<and> settleDelay (random obs) = 2000 + \<lceil>1000 * random obs\<rceil>
   \<and> (0 \<le> random obs \<and> random obs < 1 \<longrightarrow>
        2000 \<le> settleDelay (random obs) \<and> settleDelay (random obs) \<le> 3000)
   \<and> ((isSearchPage resp \<or> isDetailPreviewPage resp)
        \<and> error (parseSearchPlacesResponseBody JSON_parse fixFloatNumber
                    (bodyText resp) (isDetailPreviewPage resp)) = Some e \<longrightarrow>
        lastError (stats (enqueuePlacesFromResponse JSON_parse fixFloatNumber opts resp s0))
          = Some \<lparr>message = e, responseStatus = status resp, responseBody = bodyText resp\<rparr>)"
proof (intro conjI impI)
  show "scrollIteration opts obs s
     = (if pageNum (stats s) > 2 \<and> totalFound (stats s) = 0 \<and> domPlaces obs \<noteq> []
        then Finished DomFallbackEnqueued
               (domEnqueueLoop opts obs (domPlaces obs) (s\<lparr>useDOMFallback := True\<rparr>))
        else iterationOutcome opts obs (s\<lparr>useDOMFallback := fallbackFlag s\<rparr>))"
  proof (cases "pageNum (stats s) > 2 \<and> totalFound (stats s) = 0")
    case True
    then show ?thesis
      by (simp add: scrollIteration_def Let_def fallbackFlag_def stopChecks_iterationOutcome)
  next
    case False
    then show ?thesis
      by (auto simp: scrollIteration_def Let_def fallbackFlag_def stopChecks_iterationOutcome)
  qed
next
  show "lastError (stats (domEnqueueLoop opts obs (domPlaces obs) (s\<lparr>useDOMFallback := True\<rparr>)))
       = lastError (stats s)"
    using domEnqueueLoop_frame[of opts obs "domPlaces obs" "s\<lparr>useDOMFallback := True\<rparr>"]
    by simp
next
  show "settleDelay (random obs) = 2000 + \<lceil>1000 * random obs\<rceil>"
    by (simp add: settleDelay_def)
next
  assume "0 \<le> random obs \<and> random obs < 1"
  then show "2000 \<le> settleDelay (random obs)" "settleDelay (random obs) \<le> 3000"
    using settleDelay_range by blast+
next
  assume "(isSearchPage resp \<or> isDetailPreviewPage resp)
          \<and> error (parseSearchPlacesResponseBody JSON_parse fixFloatNumber
                      (bodyText resp) (isDetailPreviewPage resp)) = Some e"
  then show "lastError (stats (enqueuePlacesFromResponse JSON_parse fixFloatNumber opts resp s0))
            = Some \<lparr>message = e, responseStatus = status resp, responseBody = bodyText resp\<rparr>"
    using handler_keeps_raw_body by blast
qed

text \<open>
  A response that is an HTML page leaves the error ``Response body is HTML'' with its
  body; the next iteration throws it with that body, before it looks at the budget. From
  the first state of a session, with nothing on the page, the iteration scrolls and waits
  2500 milliseconds when \<open>random\<close> is one half.
\<close>

theorem stop_conditions_in_order_witness:
  "scrollIteration sampleOptions quiet afterHtml
     = Thrown \<lparr>thrownMessage = ResponseBodyIsHtml,
               storedBody = ''<!DOCTYPE html><html></html>''\<rparr>
         (afterHtml\<lparr>numberOfEmptyScrolls := 1\<rparr>)
   \<and> scrollIteration sampleOptions quiet (initialSession noLimits [])
       = Scrolled
           ((initialSession noLimits [])
              \<lparr>numberOfEmptyScrolls := 1,
               actions := [MouseMove 10 300, Delay 100, MouseWheel 800, Delay 2500],
               stats := (stats (initialSession noLimits []))\<lparr>pageNum := 2\<rparr>\<rparr>)
   \<and> settleDelay (random quiet) = 2500
   \<and> 2000 \<le> settleDelay (random quiet) \<and> settleDelay (random quiet) \<le> 3000
   \<and> lastError (stats afterHtml)
       = Some \<lparr>message = ResponseBodyIsHtml, responseStatus = 200,
               responseBody = ''<!DOCTYPE html><html></html>''\<rparr>"
proof -
  have r: "0 \<le> random quiet \<and> random quiet < 1" by code_simp
  have k: "isSearchPage htmlResponse \<or> isDetailPreviewPage htmlResponse" by code_simp
  have e: "error (parseSearchPlacesResponseBody readJson Inr
                    (bodyText htmlResponse) (isDetailPreviewPage htmlResponse))
             = Some ResponseBodyIsHtml"
    by code_simp
  have t: "(if pageNum (stats afterHtml) > 2 \<and> totalFound (stats afterHtml) = 0
              \<and> domPlaces quiet \<noteq> []
        then Finished DomFallbackEnqueued
               (domEnqueueLoop sampleOptions quiet (domPlaces quiet)
                  (afterHtml\<lparr>useDOMFallback := True\<rparr>))
        else iterationOutcome sampleOptions quiet
               (afterHtml\<lparr>useDOMFallback := fallbackFlag afterHtml\<rparr>))
       = Thrown \<lparr>thrownMessage = ResponseBodyIsHtml,
                 storedBody = ''<!DOCTYPE html><html></html>''\<rparr>
           (afterHtml\<lparr>numberOfEmptyScrolls := 1\<rparr>)"
    by code_simp
  have u: "(if pageNum (stats (initialSession noLimits [])) > 2
              \<and> totalFound (stats (initialSession noLimits [])) = 0
              \<and> domPlaces quiet \<noteq> []
        then Finished DomFallbackEnqueued
               (domEnqueueLoop sampleOptions quiet (domPlaces quiet)
                  ((initialSession noLimits [])\<lparr>useDOMFallback := True\<rparr>))
        else iterationOutcome sampleOptions quiet
               ((initialSession noLimits [])
                  \<lparr>useDOMFallback := fallbackFlag (initialSession noLimits [])\<rparr>))
       = Scrolled
           ((initialSession noLimits [])
              \<lparr>numberOfEmptyScrolls := 1,
               actions := [MouseMove 10 300, Delay 100, MouseWheel 800, Delay 2500],
               stats := (stats (initialSession noLimits []))\<lparr>pageNum := 2\<rparr>\<rparr>)"
    by code_simp
  have v: "2000 + \<lceil>1000 * random quiet\<rceil> = 2500" by code_simp
  have b: "status htmlResponse = 200"
    "bodyText htmlResponse = ''<!DOCTYPE html><html></html>''"
    by (simp_all add: htmlResponse_def)
  note c = stop_conditions_in_order[where s = afterHtml and obs = quiet
      and opts = sampleOptions and resp = htmlResponse and JSON_parse = readJson
      and fixFloatNumber = Inr and e = ResponseBodyIsHtml
      and ?s0.0 = "initialSession noLimits []"]
  note c0 = stop_conditions_in_order[where s = "initialSession noLimits []" and obs = quiet
      and opts = sampleOptions]
  have i: "scrollIteration sampleOptions quiet afterHtml
     = Thrown \<lparr>thrownMessage = ResponseBodyIsHtml,
               storedBody = ''<!DOCTYPE html><html></html>''\<rparr>
         (afterHtml\<lparr>numberOfEmptyScrolls := 1\<rparr>)"
    using c[THEN conjunct1] t by simp
  have j: "scrollIteration sampleOptions quiet (initialSession noLimits [])
       = Scrolled
           ((initialSession noLimits [])
              \<lparr>numberOfEmptyScrolls := 1,
               actions := [MouseMove 10 300, Delay 100, MouseWheel 800, Delay 2500],
               stats := (stats (initialSession noLimits []))\<lparr>pageNum := 2\<rparr>\<rparr>)"
    using c0[THEN conjunct1] u by simp
  have w: "settleDelay (random quiet) = 2500" using c v by simp
  have l: "lastError (stats afterHtml)
       = Some \<lparr>message = ResponseBodyIsHtml, responseStatus = 200,
               responseBody = ''<!DOCTYPE html><html></html>''\<rparr>"
    using c k e unfolding afterHtml_def b by blast
  have d: "2000 \<le> settleDelay (random quiet)" "settleDelay (random quiet) \<le> 3000"
    using c r by blast+
  show ?thesis
    by (intro conjI) (rule i, rule j, rule w, rule d(1), rule d(2), rule l)
qed

text \<open>
  The fallback comes before the checks. Nothing arrives during two iterations; before
  the third a response that is an HTML page arrives, which leaves its error pending, and
  the page shows a link. The third iteration submits the link and ends the session: the
  error is still pending in the last state, and nothing was thrown.
\<close>

theorem fallback_before_stop_conditions_counterexample:
  "finishedWith (scrollingLoop readJson Inr sampleOptions errorThenLink
       (initialSession noLimits [])) = Some DomFallbackEnqueued
   \<and> map_option (pageNum \<circ> stats)
         (finalSession (scrollingLoop readJson Inr sampleOptions errorThenLink
            (initialSession noLimits []))) = Some 3
   \<and> map_option (lastError \<circ> stats)
         (finalSession (scrollingLoop readJson Inr sampleOptions errorThenLink
            (initialSession noLimits [])))
       = Some (Some \<lparr>message = ResponseBodyIsHtml, responseStatus = 200,
                      responseBody = ''<!DOCTYPE html><html></html>''\<rparr>)
   \<and> map_option (map uniqueKey \<circ> addRequestCalls)
         (finalSession (scrollingLoop readJson Inr sampleOptions errorThenLink
            (initialSession noLimits [])))
       = Some [JStr ''https://www.google.com/maps/place/Cafe/data=x'']"
  by code_simp


section \<open>The fallback on the links of the page\<close>

lemma submitted_first:
  assumes "submittedInOrder opts obs ds s' after new"
    and "addRequestCalls s' = addRequestCalls s @ [r]"
    and "url r = LinkUrl (domPlaceUrl d)" "uniqueKey r = JStr (domUniqueKey d)"
    and "forefront r" "placeFields r = None" "userLabel r = PLACE"
      "userSearchString r = searchString opts" "userSearchPageUrl r = pageUrl obs"
    and "unlimited (tracker s) \<longrightarrow> unlimited (tracker s')"
    and "uniqueKey ` set (requestQueue s') = insert (uniqueKey r) (uniqueKey ` set (requestQueue s))"
    and "distinct (map uniqueKey (requestQueue s)) \<longrightarrow> distinct (map uniqueKey (requestQueue s'))"
    and "canEnqueueMore (tracker s) (searchKey opts)"
  shows "submittedInOrder opts obs (d # ds) s after (r # new)"
  using assms unfolding submittedInOrder_def by auto

lemma domEnqueueLoop_submitted:
  "\<exists>new. submittedInOrder opts obs ds s (domEnqueueLoop opts obs ds s) new"
proof (induction ds arbitrary: s)
  case Nil
  have "submittedInOrder opts obs [] s (domEnqueueLoop opts obs [] s) []"
    by (simp add: submittedInOrder_def)
  then show ?case by blast
next
  case (Cons d ds)
  show ?case
  proof (cases "canEnqueueMore (tracker s) (searchKey opts)")
    case False
    then have "domEnqueueLoop opts obs (d # ds) s = s" by (simp add: setEnqueued_def)
    then have "submittedInOrder opts obs (d # ds) s (domEnqueueLoop opts obs (d # ds) s) []"
      using False unlimited_canEnqueueMore by (auto simp: submittedInOrder_def)
    then show ?thesis by blast
  next
    case True
    obtain t where t: "setEnqueued (tracker s) (searchKey opts) = (True, t)"
      using True by (simp add: setEnqueued_def)
    have tu: "unlimited (tracker s) \<longrightarrow> unlimited t"
      using t by (auto simp: setEnqueued_def unlimited_def split: if_splits)
    let ?r = "domRequest opts obs (totalEnqueued (stats s)) d"
    obtain b q where a: "addRequest (requestQueue s) ?r = (b, q)" by fastforce
    define s' where "s' = (if b
        then s\<lparr>tracker := t, requestQueue := q, addRequestCalls := addRequestCalls s @ [?r]\<rparr>
        else s\<lparr>tracker := t, requestQueue := q, addRequestCalls := addRequestCalls s @ [?r],
                stats := (stats s)\<lparr>totalEnqueued := totalEnqueued (stats s) + 1,
                                     enqueued := enqueued (stats s) + 1\<rparr>\<rparr>)"
    have step: "domEnqueueLoop opts obs (d # ds) s = domEnqueueLoop opts obs ds s'"
      using t a by (simp add: s'_def Let_def)
    from Cons.IH[of s'] obtain new where
      new: "submittedInOrder opts obs ds s' (domEnqueueLoop opts obs ds s') new" by blast
    have q: "uniqueKey ` set (requestQueue s')
               = insert (uniqueKey ?r) (uniqueKey ` set (requestQueue s))"
      "distinct (map uniqueKey (requestQueue s)) \<longrightarrow> distinct (map uniqueKey (requestQueue s'))"
      using a by (auto simp: s'_def addRequest_def split: if_splits)
    have "submittedInOrder opts obs (d # ds) s (domEnqueueLoop opts obs ds s') (?r # new)"
      using new
    proof (rule submitted_first)
      show "addRequestCalls s' = addRequestCalls s @ [?r]" by (simp add: s'_def)
      show "unlimited (tracker s) \<longrightarrow> unlimited (tracker s')" using tu by (simp add: s'_def)
    qed (simp_all add: domRequest_def q True)
    then show ?thesis unfolding step by blast
  qed
qed

text \<open>The handler and the loops never read the flag of line 419.\<close>

lemma enqueueLoop_flag:
  "enqueueLoop opts resp i recs (s\<lparr>useDOMFallback := b\<rparr>, n)
     = ((fst (enqueueLoop opts resp i recs (s, n)))\<lparr>useDOMFallback := b\<rparr>,
        snd (enqueueLoop opts resp i recs (s, n)))"
proof (induction recs arbitrary: i s n)
  case Nil
  then show ?case by simp
next
  case (Cons p rest)
  show ?case
  proof (cases "checkInPolygon opts (coords p)")
    case False
    then show ?thesis using Cons.IH by simp
  next
    case True
    obtain ok t where t: "setEnqueued (tracker s) (searchKey opts) = (ok, t)" by fastforce
    obtain c q where a: "addRequest (requestQueue s)
        (placeRequest opts resp (rankOf (ech resp) (i + 1)) p) = (c, q)" by fastforce
    let ?r = "placeRequest opts resp (rankOf (ech resp) (i + 1)) p"
    have sw: "s\<lparr>useDOMFallback := b, tracker := t', requestQueue := q',
                 addRequestCalls := c'\<rparr>
              = (s\<lparr>tracker := t', requestQueue := q', addRequestCalls := c'\<rparr>)
                  \<lparr>useDOMFallback := b\<rparr>" for t' q' c'
      by (cases s) simp
    have new: "enqueueLoop opts resp (i + 1) rest
             (s\<lparr>useDOMFallback := b, tracker := t, requestQueue := q,
                addRequestCalls := addRequestCalls s @ [?r]\<rparr>, n + 1)
          = ((fst (enqueueLoop opts resp (i + 1) rest
                (s\<lparr>tracker := t, requestQueue := q,
                   addRequestCalls := addRequestCalls s @ [?r]\<rparr>, n + 1)))
               \<lparr>useDOMFallback := b\<rparr>,
             snd (enqueueLoop opts resp (i + 1) rest
                (s\<lparr>tracker := t, requestQueue := q,
                   addRequestCalls := addRequestCalls s @ [?r]\<rparr>, n + 1)))"
      unfolding sw by (rule Cons.IH)
    have old: "enqueueLoop opts resp (i + 1) rest
             (s\<lparr>useDOMFallback := b, tracker := releaseEnqueued t (searchKey opts),
                requestQueue := q, addRequestCalls := addRequestCalls s @ [?r]\<rparr>, n)
          = ((fst (enqueueLoop opts resp (i + 1) rest
                (s\<lparr>tracker := releaseEnqueued t (searchKey opts), requestQueue := q,
                   addRequestCalls := addRequestCalls s @ [?r]\<rparr>, n)))
               \<lparr>useDOMFallback := b\<rparr>,
             snd (enqueueLoop opts resp (i + 1) rest
                (s\<lparr>tracker := releaseEnqueued t (searchKey opts), requestQueue := q,
                   addRequestCalls := addRequestCalls s @ [?r]\<rparr>, n)))"
      unfolding sw by (rule Cons.IH)
    show ?thesis using True t a new old by (cases ok; cases c) (simp_all add: Let_def)
  qed
qed

lemma handleDecoded_flag:
  "handleDecoded opts resp decoded (s\<lparr>useDOMFallback := b\<rparr>)
     = (handleDecoded opts resp decoded s)\<lparr>useDOMFallback := b\<rparr>"
proof -
  obtain s' n where r:
    "enqueueLoop opts resp (- 1) (placesPaginationData decoded) (s, 0) = (s', n)"
    by fastforce
  have r': "enqueueLoop opts resp (- 1) (placesPaginationData decoded)
              (s\<lparr>useDOMFallback := b\<rparr>, 0) = (s'\<lparr>useDOMFallback := b\<rparr>, n)"
    using enqueueLoop_flag[where s = s and b = b and n = 0 and i = "- 1" and opts = opts
        and resp = resp and recs = "placesPaginationData decoded"] r
    by simp
  show ?thesis
    using r r' by (cases s'; cases "error decoded") (simp_all add: handleDecoded_def Let_def)
qed

lemma handler_flag:
  "enqueuePlacesFromResponse JSON_parse fixFloatNumber opts resp (s\<lparr>useDOMFallback := b\<rparr>)
     = (enqueuePlacesFromResponse JSON_parse fixFloatNumber opts resp s)\<lparr>useDOMFallback := b\<rparr>"
proof -
  have f: "(s\<lparr>useDOMFallback := b\<rparr>)\<lparr>stats := (stats (s\<lparr>useDOMFallback := b\<rparr>))\<lparr>isDataPage := True\<rparr>\<rparr>
             = (s\<lparr>stats := (stats s)\<lparr>isDataPage := True\<rparr>\<rparr>)\<lparr>useDOMFallback := b\<rparr>"
    by (cases s) simp
  show ?thesis
    unfolding enqueuePlacesFromResponse_def f handleDecoded_flag by simp
qed

lemma deliver_flag:
  "deliver JSON_parse fixFloatNumber opts rs (s\<lparr>useDOMFallback := b\<rparr>)
     = (deliver JSON_parse fixFloatNumber opts rs s)\<lparr>useDOMFallback := b\<rparr>"
  by (induction rs arbitrary: s) (simp_all add: deliver_def handler_flag)

lemma stopChecks_flag:
  "outcomeWithoutFlag (stopChecks opts obs (withoutFlag s))
     = outcomeWithoutFlag (stopChecks opts obs s)"
  by (simp add: stopChecks_def withoutFlag_def Let_def split: option.splits)

lemma scrollIteration_flag:
  "outcomeWithoutFlag (scrollIteration opts obs (withoutFlag s))
     = outcomeWithoutFlag (scrollIteration opts obs s)"
proof (cases "pageNum (stats s) > 2 \<and> totalFound (stats s) = 0")
  case True
  have "stopChecks opts obs ((withoutFlag s)\<lparr>useDOMFallback := True\<rparr>)
          = stopChecks opts obs (s\<lparr>useDOMFallback := True\<rparr>)"
    by (simp add: withoutFlag_def)
  then show ?thesis using True by (simp add: scrollIteration_def Let_def withoutFlag_def)
next
  case False
  then show ?thesis using stopChecks_flag[of opts obs s]
    by (auto simp: scrollIteration_def Let_def withoutFlag_def)
qed

lemma scrollingLoop_flag:
  "map_option outcomeWithoutFlag
       (scrollingLoop JSON_parse fixFloatNumber opts obss (withoutFlag s))
     = map_option outcomeWithoutFlag (scrollingLoop JSON_parse fixFloatNumber opts obss s)"
proof (induction obss arbitrary: s)
  case Nil
  then show ?case by simp
next
  case (Cons obs rest)
  let ?a = "deliver JSON_parse fixFloatNumber opts (arrivals obs) s"
  have d: "deliver JSON_parse fixFloatNumber opts (arrivals obs) (withoutFlag s) = withoutFlag ?a"
    by (simp add: withoutFlag_def deliver_flag)
  have i: "outcomeWithoutFlag (scrollIteration opts obs (withoutFlag ?a))
             = outcomeWithoutFlag (scrollIteration opts obs ?a)"
    by (rule scrollIteration_flag)
  show ?case
  proof (cases "scrollIteration opts obs ?a")
    case (Finished r x)
    then obtain y where "scrollIteration opts obs (withoutFlag ?a) = Finished r y"
      "withoutFlag y = withoutFlag x"
      using i by (cases "scrollIteration opts obs (withoutFlag ?a)") simp_all
    then show ?thesis using Finished d by simp
  next
    case (Thrown t x)
    then obtain y where "scrollIteration opts obs (withoutFlag ?a) = Thrown t y"
      "withoutFlag y = withoutFlag x"
      using i by (cases "scrollIteration opts obs (withoutFlag ?a)") simp_all
    then show ?thesis using Thrown d by simp
  next
    case (Scrolled x)
    then obtain y where y: "scrollIteration opts obs (withoutFlag ?a) = Scrolled y"
      "withoutFlag y = withoutFlag x"
      using i by (cases "scrollIteration opts obs (withoutFlag ?a)") simp_all
    have "map_option outcomeWithoutFlag (scrollingLoop JSON_parse fixFloatNumber opts rest y)
            = map_option outcomeWithoutFlag (scrollingLoop JSON_parse fixFloatNumber opts rest x)"
      using Cons.IH[of x] Cons.IH[of y] y(2) by simp
    then show ?thesis using Scrolled d y(1) by simp
  qed
qed

lemma handler_counts_found:
  assumes "isSearchPage resp \<or> isDetailPreviewPage resp"
  shows "found (stats (enqueuePlacesFromResponse JSON_parse fixFloatNumber opts resp s))
           = length (placesPaginationData
                (parseSearchPlacesResponseBody JSON_parse fixFloatNumber
                   (bodyText resp) (isDetailPreviewPage resp)))"
    and "totalFound (stats (enqueuePlacesFromResponse JSON_parse fixFloatNumber opts resp s))
           = totalFound (stats s)
             + length (placesPaginationData
                (parseSearchPlacesResponseBody JSON_parse fixFloatNumber
                   (bodyText resp) (isDetailPreviewPage resp)))"
  using assms
  by (auto simp: enqueuePlacesFromResponse_def handleDecoded_def Let_def split: option.splits)

text \<open>
  C9. At an iteration where the page index exceeds 2 while \<open>totalFound\<close> is still 0, the
  loop sets its fallback flag and reads the links of the page. When there is at least one
  link it submits them in the order of the page and the session ends there. Before each
  link the budget is asked: a refusal ends the loop with nothing more submitted; otherwise
  the request of the link is submitted, to the front of the queue, under the key that is
  the place id of the link or else its address, without coordinates, address,
  advertisement mark or categories, and the counts \<open>enqueued\<close> and \<open>totalEnqueued\<close> go up
  by one unless the queue knows the key. So the submitted requests are those of the
  first links of the page in their order, all of them when the budget has no limit, and
  when a link is left over the budget refuses in the last state. When the page shows no
  link the iteration goes on with the stop conditions. The flag is never read: the
  handler does to a session what it does without the flag, it decodes every response of
  the two kinds and counts its records as found, and a run of the loop is the same
  whatever the flag was.
\<close>

theorem dom_fallback_when_nothing_found:
  assumes "pageNum (stats s) > 2" "totalFound (stats s) = 0"
  shows "(domPlaces obs \<noteq> [] \<longrightarrow>
            scrollIteration opts obs s
              = Finished DomFallbackEnqueued
                  (domEnqueueLoop opts obs (domPlaces obs) (s\<lparr>useDOMFallback := True\<rparr>)))
     \<and> (domPlaces obs = [] \<longrightarrow>
            scrollIteration opts obs s = stopChecks opts obs (s\<lparr>useDOMFallback := True\<rparr>))
     \<and> (if canEnqueueMore (tracker u) (searchKey opts)
         then (let r = domRequest opts obs (totalEnqueued (stats u)) d
               in if uniqueKey r \<in> uniqueKey ` set (requestQueue u)
                  then \<exists>t. domEnqueueLoop opts obs (d # rest) u
                             = domEnqueueLoop opts obs rest
                                 (u\<lparr>tracker := t, requestQueue := requestQueue u,
                                    addRequestCalls := addRequestCalls u @ [r]\<rparr>)
                  else domEnqueueLoop opts obs (d # rest) u
                         = domEnqueueLoop opts obs rest
                             (u\<lparr>tracker := snd (setEnqueued (tracker u) (searchKey opts)),
                                requestQueue := r # requestQueue u,
                                addRequestCalls := addRequestCalls u @ [r],
                                stats := (stats u)\<lparr>totalEnqueued := totalEnqueued (stats u) + 1,
                                                     enqueued := enqueued (stats u) + 1\<rparr>\<rparr>))
         else domEnqueueLoop opts obs (d # rest) u = u)
     \<and> domEnqueueLoop opts obs [] u = u
     \<and> (\<exists>new. submittedInOrder opts obs (domPlaces obs) (s\<lparr>useDOMFallback := True\<rparr>)
                  (domEnqueueLoop opts obs (domPlaces obs) (s\<lparr>useDOMFallback := True\<rparr>)) new)
     \<and> enqueuePlacesFromResponse JSON_parse fixFloatNumber opts resp (u\<lparr>useDOMFallback := b\<rparr>)
         = (enqueuePlacesFromResponse JSON_parse fixFloatNumber opts resp u)
             \<lparr>useDOMFallback := b\<rparr>
     \<and> (isSearchPage resp \<or> isDetailPreviewPage resp \<longrightarrow>
          found (stats (enqueuePlacesFromResponse JSON_parse fixFloatNumber opts resp u))
            = length (placesPaginationData
                (parseSearchPlacesResponseBody JSON_parse fixFloatNumber
                   (bodyText resp) (isDetailPreviewPage resp)))
          \<and> totalFound (stats (enqueuePlacesFromResponse JSON_parse fixFloatNumber opts resp u))
              = totalFound (stats u)
                + length (placesPaginationData
                    (parseSearchPlacesResponseBody JSON_parse fixFloatNumber
                       (bodyText resp) (isDetailPreviewPage resp))))
     \<and> map_option outcomeWithoutFlag
           (scrollingLoop JSON_parse fixFloatNumber opts obss (u\<lparr>useDOMFallback := b\<rparr>))
         = map_option outcomeWithoutFlag
             (scrollingLoop JSON_parse fixFloatNumber opts obss u)"
proof -
  have c1: "domPlaces obs \<noteq> [] \<longrightarrow>
            scrollIteration opts obs s
              = Finished DomFallbackEnqueued
                  (domEnqueueLoop opts obs (domPlaces obs) (s\<lparr>useDOMFallback := True\<rparr>))"
    using assms by (simp add: scrollIteration_def Let_def)
  have c2: "domPlaces obs = [] \<longrightarrow>
            scrollIteration opts obs s = stopChecks opts obs (s\<lparr>useDOMFallback := True\<rparr>)"
    using assms by (simp add: scrollIteration_def Let_def)
  have c3: "if canEnqueueMore (tracker u) (searchKey opts)
         then (let r = domRequest opts obs (totalEnqueued (stats u)) d
               in if uniqueKey r \<in> uniqueKey ` set (requestQueue u)
                  then \<exists>t. domEnqueueLoop opts obs (d # rest) u
                             = domEnqueueLoop opts obs rest
                                 (u\<lparr>tracker := t, requestQueue := requestQueue u,
                                    addRequestCalls := addRequestCalls u @ [r]\<rparr>)
                  else domEnqueueLoop opts obs (d # rest) u
                         = domEnqueueLoop opts obs rest
                             (u\<lparr>tracker := snd (setEnqueued (tracker u) (searchKey opts)),
                                requestQueue := r # requestQueue u,
                                addRequestCalls := addRequestCalls u @ [r],
                                stats := (stats u)\<lparr>totalEnqueued := totalEnqueued (stats u) + 1,
                                                     enqueued := enqueued (stats u) + 1\<rparr>\<rparr>))
         else domEnqueueLoop opts obs (d # rest) u = u"
  proof (cases "canEnqueueMore (tracker u) (searchKey opts)")
    case False
    then show ?thesis by (simp add: setEnqueued_def)
  next
    case True
    obtain t where t: "setEnqueued (tracker u) (searchKey opts) = (True, t)"
      using True by (simp add: setEnqueued_def)
    show ?thesis
    proof (cases "uniqueKey (domRequest opts obs (totalEnqueued (stats u)) d)
                    \<in> uniqueKey ` set (requestQueue u)")
      case known: True
      have "domEnqueueLoop opts obs (d # rest) u
              = domEnqueueLoop opts obs rest
                  (u\<lparr>tracker := t, requestQueue := requestQueue u,
                     addRequestCalls := addRequestCalls u
                        @ [domRequest opts obs (totalEnqueued (stats u)) d]\<rparr>)"
        using t known by (simp add: Let_def addRequest_def)
      then show ?thesis using True known by (auto simp: Let_def)
    next
      case False
      then show ?thesis using True t by (simp add: Let_def addRequest_def)
    qed
  qed
  have c4: "domEnqueueLoop opts obs [] u = u" by simp
  have c5: "\<exists>new. submittedInOrder opts obs (domPlaces obs) (s\<lparr>useDOMFallback := True\<rparr>)
                  (domEnqueueLoop opts obs (domPlaces obs) (s\<lparr>useDOMFallback := True\<rparr>)) new"
    by (rule domEnqueueLoop_submitted)
  have c6: "enqueuePlacesFromResponse JSON_parse fixFloatNumber opts resp (u\<lparr>useDOMFallback := b\<rparr>)
         = (enqueuePlacesFromResponse JSON_parse fixFloatNumber opts resp u)
             \<lparr>useDOMFallback := b\<rparr>"
    by (rule handler_flag)
  have c7: "isSearchPage resp \<or> isDetailPreviewPage resp \<longrightarrow>
          found (stats (enqueuePlacesFromResponse JSON_parse fixFloatNumber opts resp u))
            = length (placesPaginationData
                (parseSearchPlacesResponseBody JSON_parse fixFloatNumber
                   (bodyText resp) (isDetailPreviewPage resp)))
          \<and> totalFound (stats (enqueuePlacesFromResponse JSON_parse fixFloatNumber opts resp u))
              = totalFound (stats u)
                + length (placesPaginationData
                    (parseSearchPlacesResponseBody JSON_parse fixFloatNumber
                       (bodyText resp) (isDetailPreviewPage resp)))"
    using handler_counts_found by blast
  have "withoutFlag (u\<lparr>useDOMFallback := b\<rparr>) = withoutFlag u" by (simp add: withoutFlag_def)
  then have c8: "map_option outcomeWithoutFlag
           (scrollingLoop JSON_parse fixFloatNumber opts obss (u\<lparr>useDOMFallback := b\<rparr>))
         = map_option outcomeWithoutFlag
             (scrollingLoop JSON_parse fixFloatNumber opts obss u)"
    using scrollingLoop_flag[of JSON_parse fixFloatNumber opts obss "u\<lparr>useDOMFallback := b\<rparr>"]
      scrollingLoop_flag[of JSON_parse fixFloatNumber opts obss u]
    by simp
  show ?thesis
    by (intro conjI) (rule c1, rule c2, rule c3, rule c4, rule c5, rule c6, rule c7, rule c8)
qed

text \<open>
  A session at its third scroll with nothing found, on a page with two links: one
  without a place id, keyed by its address, and one keyed by its place id. Without a
  limit both are submitted; with room for one place only the first is.
\<close>

theorem dom_fallback_when_nothing_found_witness:
  "pageNum (stats thirdScroll) > 2 \<and> totalFound (stats thirdScroll) = 0
   \<and> domPlaces twoLinks \<noteq> []
   \<and> scrollIteration sampleOptions twoLinks thirdScroll
       = Finished DomFallbackEnqueued
           (domEnqueueLoop sampleOptions twoLinks (domPlaces twoLinks)
              (thirdScroll\<lparr>useDOMFallback := True\<rparr>))
   \<and> map uniqueKey (addRequestCalls
         (domEnqueueLoop sampleOptions twoLinks (domPlaces twoLinks)
            (thirdScroll\<lparr>useDOMFallback := True\<rparr>)))
       = [JStr ''https://www.google.com/maps/place/Cafe/data=x'', JStr ''ChIJbar'']
   \<and> map rank (addRequestCalls
         (domEnqueueLoop sampleOptions twoLinks (domPlaces twoLinks)
            (thirdScroll\<lparr>useDOMFallback := True\<rparr>)))
       = [Some 1, Some 2]
   \<and> map uniqueKey (addRequestCalls
         (domEnqueueLoop sampleOptions twoLinks (domPlaces twoLinks)
            (thirdScroll\<lparr>tracker := roomForOne, useDOMFallback := True\<rparr>)))
       = [JStr ''https://www.google.com/maps/place/Cafe/data=x'']"
proof -
  have a: "pageNum (stats thirdScroll) > 2" by code_simp
  have b: "totalFound (stats thirdScroll) = 0" by code_simp
  have c: "domPlaces twoLinks \<noteq> []" by code_simp
  have d: "scrollIteration sampleOptions twoLinks thirdScroll
       = Finished DomFallbackEnqueued
           (domEnqueueLoop sampleOptions twoLinks (domPlaces twoLinks)
              (thirdScroll\<lparr>useDOMFallback := True\<rparr>))"
    using dom_fallback_when_nothing_found[OF a b, where obs = twoLinks and opts = sampleOptions,
        THEN conjunct1] c
    by blast
  have e: "map uniqueKey (addRequestCalls
         (domEnqueueLoop sampleOptions twoLinks (domPlaces twoLinks)
            (thirdScroll\<lparr>useDOMFallback := True\<rparr>)))
       = [JStr ''https://www.google.com/maps/place/Cafe/data=x'', JStr ''ChIJbar'']"
    by code_simp
  have f: "map rank (addRequestCalls
         (domEnqueueLoop sampleOptions twoLinks (domPlaces twoLinks)
            (thirdScroll\<lparr>useDOMFallback := True\<rparr>)))
       = [Some 1, Some 2]"
    by code_simp
  have g: "map uniqueKey (addRequestCalls
         (domEnqueueLoop sampleOptions twoLinks (domPlaces twoLinks)
            (thirdScroll\<lparr>tracker := roomForOne, useDOMFallback := True\<rparr>)))
       = [JStr ''https://www.google.com/maps/place/Cafe/data=x'']"
    by code_simp
  show ?thesis by (intro conjI) (rule a, rule b, rule c, rule d, rule e, rule f, rule g)
qed

lemma late_response_run:
  "(case scrollingLoop readJson Inr sampleOptions lateResponse (initialSession noLimits []) of
      Some (Finished ReachedAllResults s') \<Rightarrow>
        useDOMFallback s'
        \<and> pageNum (stats s') = 4
        \<and> totalFound (stats s') = 1
        \<and> map uniqueKey (addRequestCalls s') = [JStr ''a'']
        \<and> map rank (addRequestCalls s') = [Some 61]
        \<and> map placeFields (addRequestCalls s')
            = [Some \<lparr>userCoords = \<lparr>lat = JNum 1, lng = JNum 2\<rparr>,
                     userAddressParsed = addressParsed (samplePlace ''a''),
                     userIsAdvertisement = False, userCategories = JNull\<rparr>]
    | _ \<Rightarrow> False)"
  by code_simp

text \<open>
  The flag is never read, and the handler of the responses stays as it is. Here nothing
  arrives during three iterations and the page shows no link, so the third iteration sets
  the flag and scrolls on; then a response with one place arrives. The decoder reads it
  and the handler submits its request, with the fields of the record and the rank of the
  page; the link that the page now shows is never submitted, since \<open>totalFound\<close> is 1.
\<close>

theorem late_response_counterexample:
  "finishedWith (scrollingLoop readJson Inr sampleOptions lateResponse
       (initialSession noLimits [])) = Some ReachedAllResults
   \<and> map_option useDOMFallback
         (finalSession (scrollingLoop readJson Inr sampleOptions lateResponse
            (initialSession noLimits []))) = Some True
   \<and> map_option (pageNum \<circ> stats)
         (finalSession (scrollingLoop readJson Inr sampleOptions lateResponse
            (initialSession noLimits []))) = Some 4
   \<and> map_option (totalFound \<circ> stats)
         (finalSession (scrollingLoop readJson Inr sampleOptions lateResponse
            (initialSession noLimits []))) = Some 1
   \<and> map_option (map uniqueKey \<circ> addRequestCalls)
         (finalSession (scrollingLoop readJson Inr sampleOptions lateResponse
            (initialSession noLimits []))) = Some [JStr ''a'']
   \<and> map_option (map rank \<circ> addRequestCalls)
         (finalSession (scrollingLoop readJson Inr sampleOptions lateResponse
            (initialSession noLimits []))) = Some [Some 61]
   \<and> map_option (map placeFields \<circ> addRequestCalls)
         (finalSession (scrollingLoop readJson Inr sampleOptions lateResponse
            (initialSession noLimits [])))
       = Some [Some \<lparr>userCoords = \<lparr>lat = JNum 1, lng = JNum 2\<rparr>,
                      userAddressParsed = addressParsed (samplePlace ''a''),
                      userIsAdvertisement = False, userCategories = JNull\<rparr>]"
  using late_response_run
  by (auto split: option.splits outcome.splits finishReason.splits)


section \<open>The same records on every step\<close>

lemma enqueueLoop_frame:
  "stats (fst (enqueueLoop opts resp i recs (s, n))) = stats s
   \<and> numberOfEmptyScrolls (fst (enqueueLoop opts resp i recs (s, n))) = numberOfEmptyScrolls s
   \<and> lastNumberOfResultsLoadedTotally (fst (enqueueLoop opts resp i recs (s, n)))
       = lastNumberOfResultsLoadedTotally s
   \<and> useDOMFallback (fst (enqueueLoop opts resp i recs (s, n))) = useDOMFallback s
   \<and> actions (fst (enqueueLoop opts resp i recs (s, n))) = actions s"
proof (induction recs arbitrary: i s n)
  case Nil
  then show ?case by simp
next
  case (Cons p rest)
  show ?case
  proof (cases "checkInPolygon opts (coords p)")
    case False
    then show ?thesis using Cons.IH by simp
  next
    case True
    obtain ok t where t: "setEnqueued (tracker s) (searchKey opts) = (ok, t)" by fastforce
    obtain b q where a: "addRequest (requestQueue s)
        (placeRequest opts resp (rankOf (ech resp) (i + 1)) p) = (b, q)" by fastforce
    show ?thesis using True t a Cons.IH by (cases ok; cases b) (simp_all add: Let_def)
  qed
qed

lemma enqueueLoop_all_new:
  assumes "unlimited (tracker s)"
    and "\<forall>p\<in>set recs. checkInPolygon opts (coords p)"
    and "distinct (map placeId recs)"
    and "\<forall>p\<in>set recs. placeId p \<notin> uniqueKey ` set (requestQueue s)"
  shows "snd (enqueueLoop opts resp i recs (s, n)) = n + length recs
     \<and> unlimited (tracker (fst (enqueueLoop opts resp i recs (s, n))))
     \<and> uniqueKey ` set (requestQueue (fst (enqueueLoop opts resp i recs (s, n))))
         = uniqueKey ` set (requestQueue s) \<union> placeId ` set recs"
  using assms
proof (induction recs arbitrary: i s n)
  case Nil
  then show ?case by simp
next
  case (Cons p rest)
  obtain t where t: "setEnqueued (tracker s) (searchKey opts) = (True, t)" "unlimited t"
    using unlimited_setEnqueued[OF Cons.prems(1)] by blast
  let ?r = "placeRequest opts resp (rankOf (ech resp) (i + 1)) p"
  have k: "uniqueKey ?r = placeId p" by (simp add: placeRequest_def)
  have new: "placeId p \<notin> uniqueKey ` set (requestQueue s)" using Cons.prems(4) by simp
  have a: "addRequest (requestQueue s) ?r = (False, ?r # requestQueue s)"
    using new k by (simp add: addRequest_def)
  let ?s = "s\<lparr>tracker := t, requestQueue := ?r # requestQueue s,
               addRequestCalls := addRequestCalls s @ [?r]\<rparr>"
  have step: "enqueueLoop opts resp i (p # rest) (s, n)
                = enqueueLoop opts resp (i + 1) rest (?s, n + 1)"
    using Cons.prems(2) t(1) a by (simp add: Let_def)
  have "placeId p \<notin> placeId ` set rest" using Cons.prems(3) by simp
  then have "\<forall>p'\<in>set rest. placeId p' \<noteq> placeId p" by (metis image_eqI)
  then have "\<forall>p'\<in>set rest. placeId p' \<notin> uniqueKey ` set (requestQueue ?s)"
    using Cons.prems(4) k by simp
  then have ih: "snd (enqueueLoop opts resp (i + 1) rest (?s, n + 1)) = n + 1 + length rest
     \<and> unlimited (tracker (fst (enqueueLoop opts resp (i + 1) rest (?s, n + 1))))
     \<and> uniqueKey ` set (requestQueue (fst (enqueueLoop opts resp (i + 1) rest (?s, n + 1))))
         = uniqueKey ` set (requestQueue ?s) \<union> placeId ` set rest"
    using Cons.IH[of ?s "i + 1" "n + 1"] Cons.prems(2,3) t(2) by simp
  show ?case unfolding step using ih k by auto
qed

lemma enqueueLoop_all_known:
  assumes "unlimited (tracker s)"
    and "\<forall>p\<in>set recs. checkInPolygon opts (coords p)"
    and "\<forall>p\<in>set recs. placeId p \<in> uniqueKey ` set (requestQueue s)"
  shows "snd (enqueueLoop opts resp i recs (s, n)) = n
     \<and> unlimited (tracker (fst (enqueueLoop opts resp i recs (s, n))))
     \<and> requestQueue (fst (enqueueLoop opts resp i recs (s, n))) = requestQueue s"
  using assms
proof (induction recs arbitrary: i s n)
  case Nil
  then show ?case by simp
next
  case (Cons p rest)
  obtain t where t: "setEnqueued (tracker s) (searchKey opts) = (True, t)" "unlimited t"
    using unlimited_setEnqueued[OF Cons.prems(1)] by blast
  let ?r = "placeRequest opts resp (rankOf (ech resp) (i + 1)) p"
  have k: "uniqueKey ?r = placeId p" by (simp add: placeRequest_def)
  have old: "placeId p \<in> uniqueKey ` set (requestQueue s)" using Cons.prems(3) by simp
  have a: "addRequest (requestQueue s) ?r = (True, requestQueue s)"
    using old k by (simp add: addRequest_def)
  let ?s = "s\<lparr>tracker := releaseEnqueued t (searchKey opts), requestQueue := requestQueue s,
               addRequestCalls := addRequestCalls s @ [?r]\<rparr>"
  have step: "enqueueLoop opts resp i (p # rest) (s, n)
                = enqueueLoop opts resp (i + 1) rest (?s, n)"
    using Cons.prems(2) t(1) a by (simp add: Let_def)
  have ih: "snd (enqueueLoop opts resp (i + 1) rest (?s, n)) = n
     \<and> unlimited (tracker (fst (enqueueLoop opts resp (i + 1) rest (?s, n))))
     \<and> requestQueue (fst (enqueueLoop opts resp (i + 1) rest (?s, n))) = requestQueue ?s"
    using Cons.IH[of ?s "i + 1" n] Cons.prems(2,3) unlimited_releaseEnqueued[OF t(2)] by simp
  show ?case unfolding step using ih by simp
qed

text \<open>The handler on a response whose records are all new, and on one whose records the
  queue all knows.\<close>

lemma handle_all_new:
  fixes resp :: response
  assumes a: "unlimited (tracker s)"
    and b: "\<forall>p\<in>set recs. checkInPolygon opts (coords p)"
    and c: "distinct (map placeId recs)"
    and d: "\<forall>p\<in>set recs. placeId p \<notin> uniqueKey ` set (requestQueue s)"
  defines "s' \<equiv> handleDecoded opts resp \<lparr>placesPaginationData = recs, error = None\<rparr> s"
  shows "stats s' = (stats s)\<lparr>found := length recs,
                               totalFound := totalFound (stats s) + length recs,
                               enqueued := length recs,
                               totalEnqueued := totalEnqueued (stats s) + length recs,
                               pushed := 0\<rparr>"
    and "unlimited (tracker s')"
    and "uniqueKey ` set (requestQueue s') = uniqueKey ` set (requestQueue s) \<union> placeId ` set recs"
    and "numberOfEmptyScrolls s' = numberOfEmptyScrolls s"
    and "lastNumberOfResultsLoadedTotally s' = lastNumberOfResultsLoadedTotally s"
  using enqueueLoop_all_new[OF a b c d, of resp "- 1" 0]
    enqueueLoop_frame[of opts resp "- 1" recs s 0]
  by (simp_all add: s'_def handleDecoded_def Let_def)

lemma handle_all_known:
  fixes resp :: response
  assumes a: "unlimited (tracker s)"
    and b: "\<forall>p\<in>set recs. checkInPolygon opts (coords p)"
    and d: "\<forall>p\<in>set recs. placeId p \<in> uniqueKey ` set (requestQueue s)"
  defines "s' \<equiv> handleDecoded opts resp \<lparr>placesPaginationData = recs, error = None\<rparr> s"
  shows "stats s' = (stats s)\<lparr>found := length recs,
                               totalFound := totalFound (stats s) + length recs,
                               enqueued := 0,
                               totalEnqueued := totalEnqueued (stats s),
                               pushed := 0\<rparr>"
    and "unlimited (tracker s')"
    and "requestQueue s' = requestQueue s"
    and "numberOfEmptyScrolls s' = numberOfEmptyScrolls s"
    and "lastNumberOfResultsLoadedTotally s' = lastNumberOfResultsLoadedTotally s"
  using enqueueLoop_all_known[OF a b d, of resp "- 1" 0]
    enqueueLoop_frame[of opts resp "- 1" recs s 0]
  by (simp_all add: s'_def handleDecoded_def Let_def)

lemma same_records_twice:
  assumes dec1: "parseSearchPlacesResponseBody JSON_parse fixFloatNumber
                   (bodyText r1) (isDetailPreviewPage r1)
                 = \<lparr>placesPaginationData = recs, error = None\<rparr>"
    and dec2: "parseSearchPlacesResponseBody JSON_parse fixFloatNumber
                   (bodyText r2) (isDetailPreviewPage r2)
                 = \<lparr>placesPaginationData = recs, error = None\<rparr>"
    and kind: "isSearchPage r1 \<or> isDetailPreviewPage r1" "isSearchPage r2 \<or> isDetailPreviewPage r2"
    and recs: "recs \<noteq> []" "distinct (map placeId recs)"
      "\<forall>p\<in>set recs. checkInPolygon opts (coords p)"
      "\<forall>p\<in>set recs. placeId p \<notin> uniqueKey ` set q"
    and free: "unlimited t" "maxAutomaticZoomOut opts = None"
      "2 * length recs < MAX_PLACES_PER_PAGE opts"
    and obs: "arrivals o1 = [r1]" "arrivals o2 = [r2]" "\<not> noMoreResults o1" "\<not> noMoreResults o2"
  shows "\<exists>s'. scrollingLoop JSON_parse fixFloatNumber opts (o1 # o2 # rest) (initialSession t q)
                = Some (Finished OnlyKnownOrOutside s')
            \<and> stats s' = \<lparr>lastError = None, isDataPage = True, enqueued = 0, pushed = 0,
                           totalEnqueued = length recs, totalPushed = 0, found = length recs,
                           totalFound = 2 * length recs, pageNum = 2\<rparr>
            \<and> numberOfEmptyScrolls s' = 0
            \<and> uniqueKey ` set (requestQueue s') = uniqueKey ` set q \<union> placeId ` set recs"
proof -
  let ?s0 = "initialSession t q"
  let ?d = "\<lparr>placesPaginationData = recs, error = None\<rparr>"
  let ?a0 = "?s0\<lparr>stats := (stats ?s0)\<lparr>isDataPage := True\<rparr>\<rparr>"
  define s1 where "s1 = handleDecoded opts r1 ?d ?a0"
  have n: "0 < length recs" using recs(1) by simp
  have d1: "deliver JSON_parse fixFloatNumber opts (arrivals o1) ?s0 = s1"
    using kind(1) dec1 obs(1) by (auto simp: deliver_def enqueuePlacesFromResponse_def s1_def)
  have u0: "unlimited (tracker ?a0)" using free(1) by (simp add: initialSession_def)
  have q0: "\<forall>p\<in>set recs. placeId p \<notin> uniqueKey ` set (requestQueue ?a0)"
    using recs(4) by (simp add: initialSession_def)
  note h1 = handle_all_new[OF u0 recs(3) recs(2) q0, of r1, folded s1_def]
  have st1: "stats s1 = \<lparr>lastError = None, isDataPage = True, enqueued = length recs,
      pushed = 0, totalEnqueued = length recs, totalPushed = 0, found = length recs,
      totalFound = length recs, pageNum = 1\<rparr>"
    using h1(1) by (simp add: initialSession_def)
  have l1: "lastNumberOfResultsLoadedTotally s1 = 0" using h1(5) by (simp add: initialSession_def)
  have k1: "uniqueKey ` set (requestQueue s1) = uniqueKey ` set q \<union> placeId ` set recs"
    using h1(3) by (simp add: initialSession_def)
  define s2 where "s2 = (counted s1)\<lparr>actions := actions s1
                  @ [MouseMove 10 300, Delay 100, MouseWheel 800,
                     Delay (settleDelay (random o1))],
                stats := (stats s1)\<lparr>pageNum := pageNum (stats s1) + 1\<rparr>\<rparr>"
  have i1: "scrollIteration opts o1 s1 = Scrolled s2"
    using n obs(3) free(2,3) unlimited_canEnqueueMore[OF h1(2)] st1 l1
    by (simp add: scrollIteration_def stopChecks_counted emptyScrollsNow_def
        zoomedOutTooFar_def nothingNewOnStep_def s2_def)
  let ?a2 = "s2\<lparr>stats := (stats s2)\<lparr>isDataPage := True\<rparr>\<rparr>"
  define s3 where "s3 = handleDecoded opts r2 ?d ?a2"
  have d2: "deliver JSON_parse fixFloatNumber opts (arrivals o2) s2 = s3"
    using kind(2) dec2 obs(2) by (auto simp: deliver_def enqueuePlacesFromResponse_def s3_def)
  have u2: "unlimited (tracker ?a2)" using h1(2) by (simp add: s2_def counted_def)
  have q2: "\<forall>p\<in>set recs. placeId p \<in> uniqueKey ` set (requestQueue ?a2)"
    using k1 by (simp add: s2_def counted_def)
  note h3 = handle_all_known[OF u2 recs(3) q2, of r2, folded s3_def]
  have st3: "stats s3 = \<lparr>lastError = None, isDataPage = True, enqueued = 0,
      pushed = 0, totalEnqueued = length recs, totalPushed = 0, found = length recs,
      totalFound = 2 * length recs, pageNum = 2\<rparr>"
    using h3(1) st1 by (simp add: s2_def counted_def)
  have l3: "lastNumberOfResultsLoadedTotally s3 = length recs"
    using h3(5) st1 by (simp add: s2_def counted_def)
  have k3: "uniqueKey ` set (requestQueue s3) = uniqueKey ` set q \<union> placeId ` set recs"
    using h3(3) k1 by (simp add: s2_def counted_def)
  have i3: "scrollIteration opts o2 s3 = Finished OnlyKnownOrOutside (counted s3)"
    using n obs(4) free(2,3) unlimited_canEnqueueMore[OF h3(2)] st3 l3
    by (simp add: scrollIteration_def stopChecks_counted emptyScrollsNow_def
        zoomedOutTooFar_def nothingNewOnStep_def)
  have run: "scrollingLoop JSON_parse fixFloatNumber opts (o1 # o2 # rest) ?s0
               = Some (Finished OnlyKnownOrOutside (counted s3))"
    by (simp add: d1 i1 d2 i3)
  have "stats (counted s3) = stats s3" by (simp add: counted_def)
  moreover have "numberOfEmptyScrolls (counted s3) = 0"
    using n st3 l3 by (simp add: counted_def emptyScrollsNow_def)
  moreover have "requestQueue (counted s3) = requestQueue s3" by (simp add: counted_def)
  ultimately show ?thesis using run st3 k3 by auto
qed

lemma searchPlaces_five:
  "searchPlaces Inr (JArr (map docTree (map wrapped [''a'', ''b'', ''c'', ''d'', ''e''])))
     = \<lparr>placesPaginationData = map samplePlace [''a'', ''b'', ''c'', ''d'', ''e''],
        error = None\<rparr>"
  by code_simp

lemma decode_five:
  "parseSearchPlacesResponseBody readJson Inr (searchBody fivePlaces) False
     = \<lparr>placesPaginationData = map samplePlace [''a'', ''b'', ''c'', ''d'', ''e''],
        error = None\<rparr>"
proof -
  have "plainDoc (resultPage [''a'', ''b'', ''c'', ''d'', ''e''])" by code_simp
  then show ?thesis
    using decode_searchBody_readJson[of "map wrapped [''a'', ''b'', ''c'', ''d'', ''e'']" Inr]
      searchPlaces_five
    by (simp only: resultPage_def fivePlaces_def)
qed

lemma five_places_facts:
  "map samplePlace [''a'', ''b'', ''c'', ''d'', ''e''] \<noteq> []"
  "distinct (map placeId (map samplePlace [''a'', ''b'', ''c'', ''d'', ''e'']))"
  "\<forall>p\<in>set (map samplePlace [''a'', ''b'', ''c'', ''d'', ''e'']).
      checkInPolygon sampleOptions (coords p)"
  "\<forall>p\<in>set (map samplePlace [''a'', ''b'', ''c'', ''d'', ''e'']).
      placeId p \<notin> uniqueKey ` set []"
  "unlimited noLimits"
  "maxAutomaticZoomOut sampleOptions = None"
  "2 * length (map samplePlace [''a'', ''b'', ''c'', ''d'', ''e''])
     < MAX_PLACES_PER_PAGE sampleOptions"
  by (simp_all add: samplePlace_def sampleOptions_def unlimited_def noLimits_def)

lemma step_facts:
  "bodyText (searchResponse k d) = searchBody d"
  "isDetailPreviewPage (searchResponse k d) = False"
  "isSearchPage (searchResponse k d) \<or> isDetailPreviewPage (searchResponse k d)"
  "arrivals (stepWithFive k) = [searchResponse k fivePlaces]"
  "\<not> noMoreResults (stepWithFive k)"
  by (simp_all add: searchResponse_def stepWithFive_def quiet_def)

text \<open>
  C2. A scrolling session without budget limit, zoom bound or end-of-results signal, that
  decodes the same records before its first and before its second iteration (at least
  one record, the ids distinct and new to the queue, all inside the polygon, twice their
  number below the cap of the page) ends at its second iteration by the heuristic of the
  step without anything new (line 558). At that point \<open>totalFound\<close> is twice the number of
  records, since the handler adds every decoded record to it, duplicate or not;
  \<open>totalEnqueued\<close> is the number of records, the count \<open>enqueued\<close> of the step is 0, no
  error is pending, and the counter of empty scrolls is 0.
\<close>

theorem repeated_records_end_at_the_second_step:
  assumes "parseSearchPlacesResponseBody JSON_parse fixFloatNumber
                   (bodyText r1) (isDetailPreviewPage r1)
                 = \<lparr>placesPaginationData = recs, error = None\<rparr>"
    and "parseSearchPlacesResponseBody JSON_parse fixFloatNumber
                   (bodyText r2) (isDetailPreviewPage r2)
                 = \<lparr>placesPaginationData = recs, error = None\<rparr>"
    and "isSearchPage r1 \<or> isDetailPreviewPage r1" "isSearchPage r2 \<or> isDetailPreviewPage r2"
    and "recs \<noteq> []" "distinct (map placeId recs)"
      "\<forall>p\<in>set recs. checkInPolygon opts (coords p)"
      "\<forall>p\<in>set recs. placeId p \<notin> uniqueKey ` set q"
    and "unlimited t" "maxAutomaticZoomOut opts = None"
      "2 * length recs < MAX_PLACES_PER_PAGE opts"
    and "arrivals o1 = [r1]" "arrivals o2 = [r2]" "\<not> noMoreResults o1" "\<not> noMoreResults o2"
  shows "\<exists>s'. scrollingLoop JSON_parse fixFloatNumber opts (o1 # o2 # rest) (initialSession t q)
                = Some (Finished OnlyKnownOrOutside s')
            \<and> pageNum (stats s') = 2
            \<and> totalFound (stats s') = 2 * length recs
            \<and> totalEnqueued (stats s') = length recs
            \<and> enqueued (stats s') = 0
            \<and> lastError (stats s') = None
            \<and> numberOfEmptyScrolls s' = 0"
proof -
  from same_records_twice[OF assms, of rest] obtain s' where
    "scrollingLoop JSON_parse fixFloatNumber opts (o1 # o2 # rest) (initialSession t q)
       = Some (Finished OnlyKnownOrOutside s')"
    "stats s' = \<lparr>lastError = None, isDataPage = True, enqueued = 0, pushed = 0,
                           totalEnqueued = length recs, totalPushed = 0, found = length recs,
                           totalFound = 2 * length recs, pageNum = 2\<rparr>"
    "numberOfEmptyScrolls s' = 0"
    by blast
  then show ?thesis by simp
qed

text \<open>Five places, decoded before each of two iterations.\<close>

theorem repeated_records_end_at_the_second_step_witness:
  "parseSearchPlacesResponseBody readJson Inr (searchBody fivePlaces) False
     = \<lparr>placesPaginationData = map samplePlace [''a'', ''b'', ''c'', ''d'', ''e''],
        error = None\<rparr>
   \<and> (\<exists>s'. scrollingLoop readJson Inr sampleOptions [stepWithFive 1, stepWithFive 2]
              (initialSession noLimits [])
            = Some (Finished OnlyKnownOrOutside s')
          \<and> pageNum (stats s') = 2
          \<and> totalFound (stats s') = 10
          \<and> totalEnqueued (stats s') = 5
          \<and> enqueued (stats s') = 0
          \<and> lastError (stats s') = None
          \<and> numberOfEmptyScrolls s' = 0)"
proof -
  have d: "parseSearchPlacesResponseBody readJson Inr
             (bodyText (searchResponse k fivePlaces))
             (isDetailPreviewPage (searchResponse k fivePlaces))
           = \<lparr>placesPaginationData = map samplePlace [''a'', ''b'', ''c'', ''d'', ''e''],
              error = None\<rparr>" for k
    by (simp only: step_facts decode_five)
  obtain s' where s:
    "scrollingLoop readJson Inr sampleOptions [stepWithFive 1, stepWithFive 2]
       (initialSession noLimits []) = Some (Finished OnlyKnownOrOutside s')"
    "pageNum (stats s') = 2"
    "totalFound (stats s') = 2 * length (map samplePlace [''a'', ''b'', ''c'', ''d'', ''e''])"
    "totalEnqueued (stats s') = length (map samplePlace [''a'', ''b'', ''c'', ''d'', ''e''])"
    "enqueued (stats s') = 0"
    "lastError (stats s') = None"
    "numberOfEmptyScrolls s' = 0"
    using repeated_records_end_at_the_second_step[OF d[of 1] d[of 2] step_facts(3) step_facts(3)
        five_places_facts step_facts(4) step_facts(4) step_facts(5) step_facts(5), of "[]"]
    by blast
  have "totalFound (stats s') = 10" "totalEnqueued (stats s') = 5" using s(3,4) by simp_all
  then show ?thesis using decode_five s(1,2,5,6,7) by blast
qed

text \<open>
  The same five places before each of eleven iterations: the session ends at the second
  one, not after the eleventh; it ends by the heuristic and not by the counter of empty
  scrolls, which is 0; and \<open>totalFound\<close> is 10, not 5.
\<close>

theorem eleven_steps_counterexample:
  "finishedWith (scrollingLoop readJson Inr sampleOptions elevenSteps
       (initialSession noLimits [])) = Some OnlyKnownOrOutside
   \<and> map_option (pageNum \<circ> stats)
         (finalSession (scrollingLoop readJson Inr sampleOptions elevenSteps
            (initialSession noLimits []))) = Some 2
   \<and> map_option (totalFound \<circ> stats)
         (finalSession (scrollingLoop readJson Inr sampleOptions elevenSteps
            (initialSession noLimits []))) = Some 10
   \<and> map_option (totalEnqueued \<circ> stats)
         (finalSession (scrollingLoop readJson Inr sampleOptions elevenSteps
            (initialSession noLimits []))) = Some 5
   \<and> map_option numberOfEmptyScrolls
         (finalSession (scrollingLoop readJson Inr sampleOptions elevenSteps
            (initialSession noLimits []))) = Some 0"
proof -
  have d: "parseSearchPlacesResponseBody readJson Inr
             (bodyText (searchResponse k fivePlaces))
             (isDetailPreviewPage (searchResponse k fivePlaces))
           = \<lparr>placesPaginationData = map samplePlace [''a'', ''b'', ''c'', ''d'', ''e''],
              error = None\<rparr>" for k
    by (simp only: step_facts decode_five)
  have e: "elevenSteps
             = stepWithFive 1 # stepWithFive 2 # map stepWithFive [3, 4, 5, 6, 7, 8, 9, 10, 11]"
    by (simp add: elevenSteps_def)
  obtain s' where s:
    "scrollingLoop readJson Inr sampleOptions elevenSteps (initialSession noLimits [])
       = Some (Finished OnlyKnownOrOutside s')"
    "stats s' = \<lparr>lastError = None, isDataPage = True, enqueued = 0, pushed = 0,
        totalEnqueued = length (map samplePlace [''a'', ''b'', ''c'', ''d'', ''e'']),
        totalPushed = 0,
        found = length (map samplePlace [''a'', ''b'', ''c'', ''d'', ''e'']),
        totalFound = 2 * length (map samplePlace [''a'', ''b'', ''c'', ''d'', ''e'']),
        pageNum = 2\<rparr>"
    "numberOfEmptyScrolls s' = 0"
    unfolding e
    using same_records_twice[OF d[of 1] d[of 2] step_facts(3) step_facts(3)
        five_places_facts step_facts(4) step_facts(4) step_facts(5) step_facts(5),
        of "map stepWithFive [3, 4, 5, 6, 7, 8, 9, 10, 11]"]
    by blast
  have "pageNum (stats s') = 2" "totalFound (stats s') = 10" "totalEnqueued (stats s') = 5"
    using s(2) by simp_all
  then show ?thesis using s(1,3) by simp
qed

end
